theory Spec2Isabelle
  imports
    Main
    "HOL-Library.Char_ord"
    "HOL-Library.List_Lexorder"
    "HOL-Library.Product_Lexorder"
    "HOL-Library.Multiset"
begin

section \<open>NetaBako: the trend scraping and merge pipeline\<close>

text \<open>
  The theory embeds the three functions of the scraping core, \<open>fetchGoogleTrends\<close>,
  \<open>fetchYahooRealtime\<close> and \<open>mergeAndRank\<close>, as HOL functions.

  A Go \<open>string\<close> is a sequence of bytes and so is an Isabelle \<open>string\<close>; Go compares
  strings bytewise and lexicographically, which is the order of \<open>List_Lexorder\<close> over
  \<open>Char_ord\<close>. A Go \<open>int\<close> is modelled by \<open>int\<close>: ranks are only compared, an index
  \<open>i + 1\<close> is bounded by a slice length, and the score grows by at most 3 for each
  element of a slice, so no operation of the code can wrap around.
\<close>

subsection \<open>Data\<close>

record Topic =
  Source :: string
  Title :: string
  Note :: string
  Rank :: int

text \<open>The feed item \<open>Item\<close> of the RSS document (fields \<open>Title\<close>, \<open>Description\<close>).\<close>

record Item =
  ItemTitle :: string
  Description :: string

text \<open>
  What the selection \<open>doc.Find("ol li a, ul li a")\<close> yields for one anchor: the value
  of \<open>a.Attr("href")\<close> (the empty string when the attribute is missing, since the
  code drops the presence flag) and \<open>a.Text()\<close>.
\<close>

record Anchor =
  Href :: string
  Text :: string

text \<open>The part of \<open>http.Response\<close> that the code reads.\<close>

record Response =
  StatusCode :: int
  Status :: string
  ContentType :: string
  Body :: string

text \<open>
  The library routines whose tables are not part of the repository are parameters of
  the model: \<open>strings.TrimSpace\<close>, \<open>strings.ToLower\<close> (Unicode white space and case
  tables), \<open>reTraffic.FindString\<close> (the compiled regular expression), the XML decoder
  (the items of the channel, or the decoder's error) and the HTML parser followed by
  the selection of the anchors (the anchors in document order, or the parser's error).
  Every theorem below holds for every choice of these functions.
\<close>

record lib =
  TrimSpace :: "string \<Rightarrow> string"
  ToLower :: "string \<Rightarrow> string"
  FindString :: "string \<Rightarrow> string"
  xmlDecode :: "string \<Rightarrow> string + Item list"
  findAnchors :: "string \<Rightarrow> string + Anchor list"

text \<open>\<open>strings.Contains\<close>: \<open>sub\<close> occurs in \<open>s\<close> as a block of consecutive bytes.\<close>

fun Contains :: "string \<Rightarrow> string \<Rightarrow> bool" where
  "Contains [] sub = (sub = [])"
| "Contains (c # s) sub = (take (length sub) (c # s) = sub \<or> Contains s sub)"

text \<open>\<open>strings.Join\<close>.\<close>

fun Join :: "string list \<Rightarrow> string \<Rightarrow> string" where
  "Join [] sep = []"
| "Join [e] sep = e"
| "Join (e # e' # es) sep = e @ sep @ Join (e' # es) sep"

subsection \<open>An instance of the string library on ASCII text\<close>

text \<open>
  On strings of ASCII bytes \<open>strings.TrimSpace\<close> removes leading and trailing bytes
  among tab, line feed, vertical tab, form feed, carriage return and space, and
  \<open>strings.ToLower\<close> maps \<open>A\<close>..\<open>Z\<close> to \<open>a\<close>..\<open>z\<close>. This instance is used to run the model on
  concrete inputs.
\<close>

definition isSpace :: "char \<Rightarrow> bool" where
  "isSpace c \<longleftrightarrow> c = CHR 0x20 \<or> CHR 0x09 \<le> c \<and> c \<le> CHR 0x0D"

definition ascii_TrimSpace :: "string \<Rightarrow> string" where
  "ascii_TrimSpace s = rev (dropWhile isSpace (rev (dropWhile isSpace s)))"

text \<open>An upper-case ASCII letter and its lower-case letter differ in the bit of value 32.\<close>

definition ascii_lower :: "char \<Rightarrow> char" where
  "ascii_lower c =
     (if CHR ''A'' \<le> c \<and> c \<le> CHR ''Z''
      then (case c of Char b0 b1 b2 b3 b4 b5 b6 b7 \<Rightarrow> Char b0 b1 b2 b3 b4 True b6 b7)
      else c)"

definition ascii_ToLower :: "string \<Rightarrow> string" where
  "ascii_ToLower s = map ascii_lower s"

definition ascii :: lib where
  "ascii = \<lparr> TrimSpace = ascii_TrimSpace, ToLower = ascii_ToLower,
             FindString = (\<lambda>d. []), xmlDecode = (\<lambda>b. Inr []), findAnchors = (\<lambda>b. Inr []) \<rparr>"

text \<open>A topic without a note, to write concrete inputs.\<close>

definition topic :: "string \<Rightarrow> string \<Rightarrow> int \<Rightarrow> Topic" where
  "topic src title rank = \<lparr> Source = src, Title = title, Note = [], Rank = rank \<rparr>"

subsection \<open>mergeAndRank\<close>

text \<open>The local struct \<open>Acc\<close>; its fields \<open>Title\<close> and \<open>Note\<close> are \<open>accTitle\<close> and \<open>accNote\<close> here.\<close>

record Acc =
  accTitle :: string
  accNote :: "string list"
  Score :: int
  Best :: Topic

text \<open>The merge key \<open>strings.ToLower(strings.TrimSpace(t.Title))\<close>.\<close>

definition keyOf :: "lib \<Rightarrow> Topic \<Rightarrow> string" where
  "keyOf L t = ToLower L (TrimSpace L (Title t))"

text \<open>
  The closure \<open>add\<close>. The map \<open>acc\<close> holds pointers to separate \<open>Acc\<close> values, one for
  each key, so updating through \<open>acc[key]\<close> is an update of the map at \<open>key\<close>.
\<close>

definition add :: "lib \<Rightarrow> (string \<rightharpoonup> Acc) \<Rightarrow> Topic \<Rightarrow> (string \<rightharpoonup> Acc)" where
  "add L acc t =
     (let key = ToLower L (TrimSpace L (Title t)) in
      if key = [] then acc
      else
        let a0 = (case acc key of
                    None \<Rightarrow> \<lparr> accTitle = Title t, accNote = [], Score = 0, Best = t \<rparr>
                  | Some a \<Rightarrow> a);
            a1 = (if Source t = ''yahoo'' then a0\<lparr> Score := Score a0 + 3 \<rparr>
                  else a0\<lparr> Score := Score a0 + 2 \<rparr>);
            a2 = (if Note t \<noteq> [] then a1\<lparr> accNote := accNote a1 @ [Note t] \<rparr> else a1);
            a3 = (if Rank t > 0 \<and> (Rank (Best a2) = 0 \<or> Rank t < Rank (Best a2))
                  then a2\<lparr> Best := t \<rparr> else a2)
        in acc(key \<mapsto> a3))"

text \<open>The two loops that fold \<open>yahoo\<close> and then \<open>google\<close> into the map.\<close>

definition accumulate :: "lib \<Rightarrow> Topic list \<Rightarrow> Topic list \<Rightarrow> (string \<rightharpoonup> Acc)" where
  "accumulate L yahoo google = foldl (add L) (foldl (add L) Map.empty yahoo) google"

text \<open>The merged entry built from one accumulator.\<close>

definition emit :: "Acc \<Rightarrow> Topic" where
  "emit v = \<lparr> Source = ''mix'', Title = accTitle v, Note = Join (accNote v) '' / '',
              Rank = Rank (Best v) \<rparr>"

text \<open>
  \<open>for _, v := range acc\<close> visits every entry of the map once, in an order that Go
  leaves unspecified. The order is an input of the model: \<open>ord\<close> lists the keys in
  the order of the visit, and \<open>range_order\<close> says that it is such an enumeration.
\<close>

definition range_order :: "string list \<Rightarrow> (string \<rightharpoonup> Acc) \<Rightarrow> bool" where
  "range_order ord acc \<longleftrightarrow> distinct ord \<and> set ord = dom acc"

definition merged_list :: "string list \<Rightarrow> (string \<rightharpoonup> Acc) \<Rightarrow> Topic list" where
  "merged_list ord acc = map emit (List.map_filter acc ord)"

text \<open>The comparison function given to \<open>sort.Slice\<close>.\<close>

definition less_fn :: "Topic \<Rightarrow> Topic \<Rightarrow> bool" where
  "less_fn a b =
     (if Rank a = 0 \<and> Rank b > 0 then False
      else if Rank b = 0 \<and> Rank a > 0 then True
      else if Rank a \<noteq> Rank b then Rank a < Rank b
      else Title a < Title b)"

text \<open>
  \<open>sort.Slice\<close> returns a permutation of the slice in which no element is \<open>less\<close> than
  an earlier one; it is not stable. The model sorts by insertion;
  \<open>sort_Slice_unique\<close> below shows that on the lists \<open>mergeAndRank\<close> sorts every such
  permutation is this one.
\<close>

fun insert_by :: "('a \<Rightarrow> 'a \<Rightarrow> bool) \<Rightarrow> 'a \<Rightarrow> 'a list \<Rightarrow> 'a list" where
  "insert_by lt x [] = [x]"
| "insert_by lt x (y # ys) = (if lt x y then x # y # ys else y # insert_by lt x ys)"

definition sort_Slice :: "('a \<Rightarrow> 'a \<Rightarrow> bool) \<Rightarrow> 'a list \<Rightarrow> 'a list" where
  "sort_Slice lt xs = foldr (insert_by lt) xs []"

definition mergeAndRank :: "lib \<Rightarrow> string list \<Rightarrow> Topic list \<Rightarrow> Topic list \<Rightarrow> int \<Rightarrow> Topic list" where
  "mergeAndRank L ord yahoo google topN =
     (let merged = sort_Slice less_fn (merged_list ord (accumulate L yahoo google)) in
      if topN > 0 \<and> int (length merged) > topN then take (nat topN) merged else merged)"


text \<open>
  The same code with the two score weights as parameters (the source has 3 for a
  topic of source \<open>yahoo\<close> and 2 otherwise), to state what the weights can change.
\<close>

definition add_weighted :: "lib \<Rightarrow> int \<Rightarrow> int \<Rightarrow> (string \<rightharpoonup> Acc) \<Rightarrow> Topic \<Rightarrow> (string \<rightharpoonup> Acc)" where
  "add_weighted L wy wo acc t =
     (let key = ToLower L (TrimSpace L (Title t)) in
      if key = [] then acc
      else
        let a0 = (case acc key of
                    None \<Rightarrow> \<lparr> accTitle = Title t, accNote = [], Score = 0, Best = t \<rparr>
                  | Some a \<Rightarrow> a);
            a1 = (if Source t = ''yahoo'' then a0\<lparr> Score := Score a0 + wy \<rparr>
                  else a0\<lparr> Score := Score a0 + wo \<rparr>);
            a2 = (if Note t \<noteq> [] then a1\<lparr> accNote := accNote a1 @ [Note t] \<rparr> else a1);
            a3 = (if Rank t > 0 \<and> (Rank (Best a2) = 0 \<or> Rank t < Rank (Best a2))
                  then a2\<lparr> Best := t \<rparr> else a2)
        in acc(key \<mapsto> a3))"

definition mergeAndRank_weighted ::
  "lib \<Rightarrow> int \<Rightarrow> int \<Rightarrow> string list \<Rightarrow> Topic list \<Rightarrow> Topic list \<Rightarrow> int \<Rightarrow> Topic list" where
  "mergeAndRank_weighted L wy wo ord yahoo google topN =
     (let acc = foldl (add_weighted L wy wo) (foldl (add_weighted L wy wo) Map.empty yahoo) google;
          merged = sort_Slice less_fn (merged_list ord acc) in
      if topN > 0 \<and> int (length merged) > topN then take (nat topN) merged else merged)"

subsection \<open>Notions used to state what mergeAndRank computes\<close>

text \<open>The non-empty merge keys of a list of topics, each listed once.\<close>

definition keys :: "lib \<Rightarrow> Topic list \<Rightarrow> string list" where
  "keys L ts = remdups (filter (\<lambda>k. k \<noteq> []) (map (keyOf L) ts))"

text \<open>The topics that contribute to the key \<open>k\<close>, in the order in which they are folded.\<close>

definition group :: "lib \<Rightarrow> string \<Rightarrow> Topic list \<Rightarrow> Topic list" where
  "group L k ts = filter (\<lambda>t. keyOf L t = k) ts"

text \<open>
  The minimum positive rank of a list of topics, and the sentinel 0 when no rank is
  positive.
\<close>

definition posRanks :: "Topic list \<Rightarrow> int list" where
  "posRanks g = filter (\<lambda>r. 0 < r) (map Rank g)"

definition bestRank :: "Topic list \<Rightarrow> int" where
  "bestRank g = (if posRanks g = [] then 0 else Min (set (posRanks g)))"

text \<open>One update of \<open>Best\<close>, and the accumulator that a non-empty group leaves in the map.\<close>

definition better :: "Topic \<Rightarrow> Topic \<Rightarrow> Topic" where
  "better b t = (if Rank t > 0 \<and> (Rank b = 0 \<or> Rank t < Rank b) then t else b)"

definition weight :: "int \<Rightarrow> int \<Rightarrow> Topic \<Rightarrow> int" where
  "weight wy wo t = (if Source t = ''yahoo'' then wy else wo)"

definition acc_of :: "int \<Rightarrow> int \<Rightarrow> Topic list \<Rightarrow> Acc" where
  "acc_of wy wo g =
     \<lparr> accTitle = Title (hd g), accNote = filter (\<lambda>n. n \<noteq> []) (map Note g),
       Score = sum_list (map (weight wy wo) g), Best = foldl better (hd g) (tl g) \<rparr>"

definition acc_spec :: "lib \<Rightarrow> int \<Rightarrow> int \<Rightarrow> Topic list \<Rightarrow> (string \<rightharpoonup> Acc)" where
  "acc_spec L wy wo ts k =
     (if k \<noteq> [] \<and> group L k ts \<noteq> [] then Some (acc_of wy wo (group L k ts)) else None)"

text \<open>
  The merged entry of the key \<open>k\<close>: the title of the first topic of the group and the
  rank of the topic that the updates of \<open>Best\<close> leave.
\<close>

definition entry :: "lib \<Rightarrow> Topic list \<Rightarrow> string \<Rightarrow> Topic" where
  "entry L ts k = emit (acc_of 3 2 (group L k ts))"

text \<open>
  The comparison function orders topics by this key: entries of rank 0 last, then the
  rank, then the title.
\<close>

definition skey :: "Topic \<Rightarrow> nat \<times> int \<times> string" where
  "skey t = (if Rank t = 0 then 1 else 0, Rank t, Title t)"

subsection \<open>The two adapters\<close>

text \<open>
  An \<open>error\<close> value of the adapters: which \<open>fmt.Errorf\<close> built it, with its arguments.
\<close>

datatype fetch_error =
    GoogleRequest string
  | GoogleNonXML string string
  | GoogleDecode string
  | GoogleZeroItems string
  | YahooRequest string
  | YahooStatus string string
  | YahooParse string
  | YahooNoTopics

text \<open>
  \<open>get\<close> is the network: the response to a GET of a URL, or the transport error. An
  adapter returns the Go pair of the topics (\<open>nil\<close> is the empty list) and the error
  (\<open>None\<close> is \<open>nil\<close>).
\<close>

type_synonym network = "string \<Rightarrow> string + Response"

text \<open>
  The loop over \<open>rss.Channel.Items\<close>; \<open>i\<close> is the index of the next item and \<open>topics\<close>
  the slice built so far. The parameter \<open>max\<close> of the source is \<open>maxn\<close>.
\<close>

fun collectItems :: "lib \<Rightarrow> int \<Rightarrow> nat \<Rightarrow> Item list \<Rightarrow> Topic list \<Rightarrow> Topic list" where
  "collectItems L maxn i [] topics = topics"
| "collectItems L maxn i (it # its) topics =
     (let title = TrimSpace L (ItemTitle it) in
      if title = [] then collectItems L maxn (i + 1) its topics
      else
        let m = FindString L (Description it);
            note = (if m \<noteq> [] then m else []);
            topics' = topics @ [\<lparr> Source = ''google'', Title = title, Note = note,
                                  Rank = int i + 1 \<rparr>]
        in if maxn > 0 \<and> int (length topics') \<ge> maxn then topics'
           else collectItems L maxn (i + 1) its topics')"

text \<open>
  The body of the loop over the URLs for one URL and the outcome \<open>r\<close> of its request:
  \<open>Inr topics\<close> when the body returns \<open>topics, nil\<close>, and \<open>Inl e\<close> when it sets
  \<open>lastErr = e\<close> and goes on.
\<close>

definition tryUrl :: "lib \<Rightarrow> int \<Rightarrow> string \<Rightarrow> string + Response \<Rightarrow> fetch_error + Topic list" where
  "tryUrl L maxn url r =
     (case r of
        Inl err \<Rightarrow> Inl (GoogleRequest err)
      | Inr resp \<Rightarrow>
          let ct = ContentType resp in
          if \<not> Contains ct ''xml'' then Inl (GoogleNonXML ct (take 512 (Body resp)))
          else (case xmlDecode L (Body resp) of
                  Inl err \<Rightarrow> Inl (GoogleDecode err)
                | Inr items \<Rightarrow>
                    let topics = collectItems L maxn 0 items [] in
                    if length topics > 0 then Inr topics else Inl (GoogleZeroItems url)))"

text \<open>
  The loop over the URLs. The third component of the result is the list of the URLs
  requested, in the order of the requests.
\<close>

fun tryUrls ::
  "lib \<Rightarrow> network \<Rightarrow> int \<Rightarrow> string list \<Rightarrow> fetch_error option \<Rightarrow> string list \<Rightarrow>
   Topic list \<times> fetch_error option \<times> string list" where
  "tryUrls L get maxn [] lastErr reqs = ([], lastErr, reqs)"
| "tryUrls L get maxn (url # urls) lastErr reqs =
     (case tryUrl L maxn url (get url) of
        Inr topics \<Rightarrow> (topics, None, reqs @ [url])
      | Inl e \<Rightarrow> tryUrls L get maxn urls (Some e) (reqs @ [url]))"

definition primaryUrl :: "string \<Rightarrow> string" where
  "primaryUrl geo = ''https://trends.google.com/trends/trendingsearches/daily/rss?hl=ja&geo='' @ geo"

definition secondaryUrl :: "string \<Rightarrow> string" where
  "secondaryUrl geo = ''https://trends.google.com/trending/rss?geo='' @ geo"

definition fetchGoogleTrends ::
  "lib \<Rightarrow> network \<Rightarrow> string \<Rightarrow> int \<Rightarrow> Topic list \<times> fetch_error option \<times> string list" where
  "fetchGoogleTrends L get geo maxn =
     tryUrls L get maxn [primaryUrl geo, secondaryUrl geo] None []"

text \<open>
  The callback of \<open>Each\<close>, run on the anchors in document order; \<open>i\<close> is the index
  that \<open>Each\<close> passes for the next anchor.
\<close>

fun eachAnchor :: "lib \<Rightarrow> nat \<Rightarrow> Anchor list \<Rightarrow> Topic list \<Rightarrow> Topic list" where
  "eachAnchor L i [] topics = topics"
| "eachAnchor L i (a # as) topics =
     (let href = Href a; txt = TrimSpace L (Text a) in
      if txt = [] \<or> \<not> Contains href ''/realtime/search'' then eachAnchor L (i + 1) as topics
      else eachAnchor L (i + 1) as
             (topics @ [\<lparr> Source = ''yahoo'', Title = txt, Note = [], Rank = int i + 1 \<rparr>]))"

text \<open>
  The second loop; \<open>seen\<close> is the map \<open>map[string]bool\<close>, in which a missing key reads
  as \<open>false\<close>.
\<close>

fun dedupe :: "lib \<Rightarrow> int \<Rightarrow> Topic list \<Rightarrow> (string \<Rightarrow> bool) \<Rightarrow> Topic list \<Rightarrow> Topic list" where
  "dedupe L maxn [] seen out = out"
| "dedupe L maxn (t # ts) seen out =
     (let key = ToLower L (TrimSpace L (Title t)) in
      if key = [] \<or> seen key then dedupe L maxn ts seen out
      else
        let seen' = seen(key := True);
            out' = out @ [t]
        in if maxn > 0 \<and> int (length out') \<ge> maxn then out'
           else dedupe L maxn ts seen' out')"

definition yahooUrl :: string where
  "yahooUrl = ''https://search.yahoo.co.jp/realtime/trend''"

definition fetchYahooRealtime :: "lib \<Rightarrow> network \<Rightarrow> int \<Rightarrow> Topic list \<times> fetch_error option" where
  "fetchYahooRealtime L get maxn =
     (case get yahooUrl of
        Inl err \<Rightarrow> ([], Some (YahooRequest err))
      | Inr resp \<Rightarrow>
          if StatusCode resp \<noteq> 200
          then ([], Some (YahooStatus (Status resp) (take 512 (Body resp))))
          else (case findAnchors L (Body resp) of
                  Inl err \<Rightarrow> ([], Some (YahooParse err))
                | Inr anchors \<Rightarrow>
                    let topics = eachAnchor L 0 anchors [];
                        out = dedupe L maxn topics (\<lambda>k. False) []
                    in if length out = 0 then ([], Some YahooNoTopics) else (out, None)))"

subsection \<open>Notions used to state what the adapters compute\<close>

text \<open>The topic that the feed loop appends for the item of index \<open>i\<close>.\<close>

definition itemTopic :: "lib \<Rightarrow> nat \<Rightarrow> Item \<Rightarrow> Topic" where
  "itemTopic L i it =
     \<lparr> Source = ''google'', Title = TrimSpace L (ItemTitle it),
       Note = FindString L (Description it), Rank = int i + 1 \<rparr>"

text \<open>
  The topics of the items with a non-empty trimmed title, each with the index of its
  item among all items, the first of them having index \<open>i\<close>.
\<close>

fun survivors :: "lib \<Rightarrow> nat \<Rightarrow> Item list \<Rightarrow> Topic list" where
  "survivors L i [] = []"
| "survivors L i (it # its) =
     (if TrimSpace L (ItemTitle it) = [] then survivors L (i + 1) its
      else itemTopic L i it # survivors L (i + 1) its)"

text \<open>
  The success of one URL in the words of the specification: the exchange succeeds, the
  content type contains \<open>xml\<close>, the body decodes, and an item survives the filter.
\<close>

definition succeeds :: "lib \<Rightarrow> string + Response \<Rightarrow> bool" where
  "succeeds L r =
     (case r of
        Inl err \<Rightarrow> False
      | Inr resp \<Rightarrow>
          Contains (ContentType resp) ''xml'' \<and>
          (case xmlDecode L (Body resp) of
             Inl err \<Rightarrow> False
           | Inr items \<Rightarrow> list_ex (\<lambda>it. TrimSpace L (ItemTitle it) \<noteq> []) items))"

text \<open>The filter of the first pass over the anchors, and the topic it appends.\<close>

definition kept :: "lib \<Rightarrow> Anchor \<Rightarrow> bool" where
  "kept L a \<longleftrightarrow> TrimSpace L (Text a) \<noteq> [] \<and> Contains (Href a) ''/realtime/search''"

definition anchorTopic :: "lib \<Rightarrow> nat \<Rightarrow> Anchor \<Rightarrow> Topic" where
  "anchorTopic L i a =
     \<lparr> Source = ''yahoo'', Title = TrimSpace L (Text a), Note = [], Rank = int i + 1 \<rparr>"

fun keptAnchors :: "lib \<Rightarrow> nat \<Rightarrow> Anchor list \<Rightarrow> Topic list" where
  "keptAnchors L i [] = []"
| "keptAnchors L i (a # as) =
     (if kept L a then anchorTopic L i a # keptAnchors L (i + 1) as
      else keptAnchors L (i + 1) as)"

text \<open>
  The positions of a list of topics that hold the first occurrence of a non-empty key,
  and the second pass without its cap.
\<close>

definition firstOccurrences :: "lib \<Rightarrow> Topic list \<Rightarrow> nat set" where
  "firstOccurrences L ts =
     {i. i < length ts \<and> keyOf L (ts ! i) \<noteq> [] \<and> (\<forall>j<i. keyOf L (ts ! j) \<noteq> keyOf L (ts ! i))}"

fun uniq :: "lib \<Rightarrow> (string \<Rightarrow> bool) \<Rightarrow> Topic list \<Rightarrow> Topic list" where
  "uniq L seen [] = []"
| "uniq L seen (t # ts) =
     (if keyOf L t = [] \<or> seen (keyOf L t) then uniq L seen ts
      else t # uniq L (seen(keyOf L t := True)) ts)"

subsection \<open>Concrete inputs\<close>

text \<open>
  A feed of five items, the second with a blank title; a network that answers the
  primary feed URL with an HTML page and every other URL with an XML document; and the
  ASCII library with a decoder that yields the feed.
\<close>

definition example_feed :: "Item list" where
  "example_feed =
     [\<lparr> ItemTitle = ''one'', Description = [] \<rparr>, \<lparr> ItemTitle = ''  '', Description = [] \<rparr>,
      \<lparr> ItemTitle = '' three'', Description = [] \<rparr>, \<lparr> ItemTitle = ''four'', Description = [] \<rparr>,
      \<lparr> ItemTitle = ''five'', Description = [] \<rparr>]"

definition example_net :: network where
  "example_net url =
     (if url = primaryUrl ''JP''
      then Inr \<lparr> StatusCode = 200, Status = ''200 OK'', ContentType = ''text/html'', Body = ''<html>'' \<rparr>
      else Inr \<lparr> StatusCode = 200, Status = ''200 OK'', ContentType = ''application/rss+xml'',
                 Body = ''<rss>'' \<rparr>)"

definition example_lib :: lib where
  "example_lib = ascii\<lparr> xmlDecode := (\<lambda>b. Inr example_feed) \<rparr>"

text \<open>
  A page with twelve anchors in list items: a navigation link, an anchor without
  text, and ten trend links, two of which repeat an earlier title up to case and white
  space; and the ASCII library with a parser that yields these anchors.
\<close>

definition example_anchors :: "Anchor list" where
  "example_anchors =
     [\<lparr> Href = ''/'', Text = ''Top'' \<rparr>,
      \<lparr> Href = ''/realtime/search?p=1'', Text = ''alpha'' \<rparr>,
      \<lparr> Href = ''/realtime/search?p=2'', Text = ''beta'' \<rparr>,
      \<lparr> Href = ''/realtime/search?p=3'', Text = '' Alpha '' \<rparr>,
      \<lparr> Href = ''/realtime/search?p=4'', Text = ''gamma'' \<rparr>,
      \<lparr> Href = ''/realtime/search?p=5'', Text = ''  '' \<rparr>,
      \<lparr> Href = ''/realtime/search?p=6'', Text = ''delta'' \<rparr>,
      \<lparr> Href = ''/realtime/search?p=7'', Text = ''BETA'' \<rparr>,
      \<lparr> Href = ''/realtime/search?p=8'', Text = ''epsilon'' \<rparr>,
      \<lparr> Href = ''/realtime/search?p=9'', Text = ''zeta'' \<rparr>,
      \<lparr> Href = ''/realtime/search?p=10'', Text = ''eta'' \<rparr>,
      \<lparr> Href = ''/realtime/search?p=11'', Text = ''theta'' \<rparr>]"

definition example_page_lib :: lib where
  "example_page_lib = ascii\<lparr> findAnchors := (\<lambda>b. Inr example_anchors) \<rparr>"

section \<open>Properties of mergeAndRank\<close>

subsection \<open>The comparison function and the sort\<close>

lemma less_fn_skey: "less_fn a b \<longleftrightarrow> skey a < skey b"
  by (auto simp: less_fn_def skey_def)

lemma mset_insert_by: "mset (insert_by lt x ys) = add_mset x (mset ys)"
  by (induction ys) auto

lemma mset_sort_Slice: "mset (sort_Slice lt xs) = mset xs"
  by (induction xs) (auto simp: sort_Slice_def mset_insert_by)

lemma set_insert_by: "set (insert_by lt x ys) = insert x (set ys)"
  by (induction ys) auto

lemma set_sort_Slice: "set (sort_Slice lt xs) = set xs"
  using mset_sort_Slice[of lt xs] by (metis set_mset_mset)

lemma length_sort_Slice: "length (sort_Slice lt xs) = length xs"
  using mset_sort_Slice[of lt xs] by (metis size_mset)

lemma sorted_insert_by:
  "sorted (map skey ys) \<Longrightarrow> sorted (map skey (insert_by less_fn x ys))"
  by (induction ys) (auto simp: set_insert_by less_fn_skey)

lemma sorted_sort_Slice: "sorted (map skey (sort_Slice less_fn xs))"
  by (induction xs) (auto simp: sort_Slice_def sorted_insert_by)

text \<open>A list without two entries of the same sort key has one sorted permutation.\<close>

lemma sorted_skey_unique:
  assumes "sorted (map skey xs)" "sorted (map skey ys)" "mset xs = mset ys"
    and "distinct (map skey xs)"
  shows "xs = ys"
proof -
  from assms(3) have m: "mset (map skey xs) = mset (map skey ys)" by simp
  from m assms(4) have d: "distinct (map skey ys)"
    by (metis mset_eq_imp_distinct_iff)
  from m have "set (map skey xs) = set (map skey ys)" by (rule mset_eq_setD)
  with assms d have e: "map skey xs = map skey ys"
    by (intro sorted_distinct_set_unique)
  from assms(4) have "inj_on skey (set xs)" by (simp add: distinct_map)
  moreover from assms(3) have "set xs = set ys" by (rule mset_eq_setD)
  ultimately show ?thesis using e by (intro map_inj_on[of skey]) auto
qed

lemma sort_Slice_unique:
  assumes "distinct (map skey xs)" "mset ys = mset xs"
    and "sorted_wrt (\<lambda>a b. \<not> less_fn b a) ys"
  shows "ys = sort_Slice less_fn xs"
proof -
  from assms(3) have "sorted (map skey ys)"
    by (simp add: sorted_wrt_map less_fn_skey not_less)
  moreover have "distinct (map skey (sort_Slice less_fn xs))"
    using assms(1) mset_sort_Slice[of less_fn xs]
    by (metis mset_eq_imp_distinct_iff mset_map)
  ultimately show ?thesis
    using sorted_sort_Slice[of xs] assms(2) mset_sort_Slice[of less_fn xs]
    by (intro sorted_skey_unique[symmetric]) simp_all
qed

lemma sort_Slice_strict:
  assumes "distinct (map skey xs)"
  shows "sorted_wrt less_fn (sort_Slice less_fn xs)"
proof -
  have "distinct (map skey (sort_Slice less_fn xs))"
    using assms mset_sort_Slice[of less_fn xs]
    by (metis mset_eq_imp_distinct_iff mset_map)
  with sorted_sort_Slice[of xs] have "sorted_wrt (<) (map skey (sort_Slice less_fn xs))"
    by (simp add: strict_sorted_iff)
  moreover have "less_fn = (\<lambda>a b. skey a < skey b)"
    by (intro ext) (rule less_fn_skey)
  ultimately show ?thesis by (simp add: sorted_wrt_map)
qed

subsection \<open>The accumulator map in closed form\<close>

lemma distinct_map_comp: "distinct (map (\<lambda>x. f (g x)) xs) \<Longrightarrow> distinct (map g xs)"
  by (induction xs) auto


lemma add_eq_weighted: "add L = add_weighted L 3 2"
  by (intro ext) (simp add: add_def add_weighted_def)

lemma add_skip: "keyOf L t = [] \<Longrightarrow> add_weighted L wy wo acc t = acc"
  by (simp add: add_weighted_def keyOf_def)

lemma add_other: "keyOf L t \<noteq> k \<Longrightarrow> add_weighted L wy wo acc t k = acc k"
  by (simp add: add_weighted_def keyOf_def Let_def)

lemma add_new:
  "keyOf L t \<noteq> [] \<Longrightarrow> acc (keyOf L t) = None \<Longrightarrow>
   add_weighted L wy wo acc t (keyOf L t) = Some (acc_of wy wo [t])"
  by (simp add: add_weighted_def keyOf_def Let_def acc_of_def weight_def)

lemma add_old:
  "keyOf L t \<noteq> [] \<Longrightarrow> g \<noteq> [] \<Longrightarrow> acc (keyOf L t) = Some (acc_of wy wo g) \<Longrightarrow>
   add_weighted L wy wo acc t (keyOf L t) = Some (acc_of wy wo (g @ [t]))"
  by (cases g) (auto simp: add_weighted_def keyOf_def Let_def acc_of_def weight_def better_def)

lemma group_snoc:
  "group L k (ts @ [t]) = (if keyOf L t = k then group L k ts @ [t] else group L k ts)"
  by (simp add: group_def)

lemma foldl_add_spec: "foldl (add_weighted L wy wo) Map.empty ts = acc_spec L wy wo ts"
proof (induction ts rule: rev_induct)
  case Nil
  show ?case by (rule ext) (simp add: acc_spec_def group_def)
next
  case (snoc t ts)
  have step: "foldl (add_weighted L wy wo) Map.empty (ts @ [t]) =
              add_weighted L wy wo (acc_spec L wy wo ts) t"
    using snoc by simp
  show ?case
  proof (rule ext)
    fix k
    have "add_weighted L wy wo (acc_spec L wy wo ts) t k = acc_spec L wy wo (ts @ [t]) k"
    proof (cases "keyOf L t = k")
      case False
      then have "add_weighted L wy wo (acc_spec L wy wo ts) t k = acc_spec L wy wo ts k"
        by (rule add_other)
      also from False have "\<dots> = acc_spec L wy wo (ts @ [t]) k"
        by (simp add: acc_spec_def group_snoc)
      finally show ?thesis .
    next
      case True
      show ?thesis
      proof (cases "k = []")
        case True
        with \<open>keyOf L t = k\<close>
        have "add_weighted L wy wo (acc_spec L wy wo ts) t = acc_spec L wy wo ts"
          by (simp add: add_skip)
        with True show ?thesis by (simp add: acc_spec_def)
      next
        case False
        show ?thesis
        proof (cases "group L k ts = []")
          case True
          with False \<open>keyOf L t = k\<close>
          have "add_weighted L wy wo (acc_spec L wy wo ts) t (keyOf L t) = Some (acc_of wy wo [t])"
            by (intro add_new) (simp_all add: acc_spec_def)
          moreover from False \<open>keyOf L t = k\<close> True
          have "acc_spec L wy wo (ts @ [t]) k = Some (acc_of wy wo [t])"
            by (simp add: acc_spec_def group_snoc)
          ultimately show ?thesis using \<open>keyOf L t = k\<close> by simp
        next
          case g: False
          with False \<open>keyOf L t = k\<close>
          have "add_weighted L wy wo (acc_spec L wy wo ts) t (keyOf L t) =
                Some (acc_of wy wo (group L k ts @ [t]))"
            by (intro add_old) (simp_all add: acc_spec_def)
          moreover from False \<open>keyOf L t = k\<close>
          have "acc_spec L wy wo (ts @ [t]) k = Some (acc_of wy wo (group L k ts @ [t]))"
            by (simp add: acc_spec_def group_snoc)
          ultimately show ?thesis using \<open>keyOf L t = k\<close> by simp
        qed
      qed
    qed
    then show "foldl (add_weighted L wy wo) Map.empty (ts @ [t]) k = acc_spec L wy wo (ts @ [t]) k"
      by (simp only: step)
  qed
qed

lemma accumulate_spec: "accumulate L yahoo google = acc_spec L 3 2 (yahoo @ google)"
  by (simp add: accumulate_def add_eq_weighted foldl_add_spec[symmetric])

lemma group_empty_iff: "group L k ts = [] \<longleftrightarrow> k \<notin> keyOf L ` set ts"
  by (auto simp: group_def filter_empty_conv)

lemma set_keys: "set (keys L ts) = {k \<in> keyOf L ` set ts. k \<noteq> []}"
  by (auto simp: keys_def)

lemma distinct_keys: "distinct (keys L ts)"
  by (simp add: keys_def)

lemma dom_acc_spec: "dom (acc_spec L wy wo ts) = set (keys L ts)"
  by (auto simp: acc_spec_def set_keys group_empty_iff dom_def)

lemma range_order_iff:
  "range_order ord (accumulate L yahoo google) \<longleftrightarrow>
   distinct ord \<and> set ord = set (keys L (yahoo @ google))"
  by (simp add: range_order_def accumulate_spec dom_acc_spec)

lemma hd_group_key: "group L k ts \<noteq> [] \<Longrightarrow> keyOf L (hd (group L k ts)) = k"
proof -
  assume "group L k ts \<noteq> []"
  then have "hd (group L k ts) \<in> set (group L k ts)" by (rule hd_in_set)
  then show ?thesis by (simp add: group_def)
qed


lemma emit_acc_of: "emit (acc_of wy wo g) = emit (acc_of 3 2 g)"
  by (simp add: emit_def acc_of_def)

lemma merged_list_spec:
  "merged_list ord (acc_spec L wy wo ts) =
   map (entry L ts) (filter (\<lambda>k. k \<in> set (keys L ts)) ord)"
proof (induction ord)
  case Nil
  show ?case by (simp add: merged_list_def)
next
  case (Cons k ord)
  have "acc_spec L wy wo ts k =
        (if k \<in> set (keys L ts) then Some (acc_of wy wo (group L k ts)) else None)"
    by (auto simp: acc_spec_def set_keys group_empty_iff)
  with Cons show ?case
    by (simp add: merged_list_def entry_def emit_acc_of[of wy wo])
qed

lemma merged_list_range:
  "set ord = set (keys L ts) \<Longrightarrow> merged_list ord (acc_spec L wy wo ts) = map (entry L ts) ord"
  by (simp add: merged_list_spec)

lemma keyOf_entry: "k \<in> set (keys L ts) \<Longrightarrow> keyOf L (entry L ts k) = k"
proof -
  assume "k \<in> set (keys L ts)"
  then have "group L k ts \<noteq> []" by (simp add: set_keys group_empty_iff)
  then have "keyOf L (hd (group L k ts)) = k" by (rule hd_group_key)
  then show ?thesis by (simp add: entry_def emit_def acc_of_def keyOf_def)
qed

lemma keys_of_entries:
  "set ord \<subseteq> set (keys L ts) \<Longrightarrow> map (keyOf L) (map (entry L ts) ord) = ord"
  by (induction ord) (auto simp: keyOf_entry)

lemma skey_keyOf: "skey a = skey b \<Longrightarrow> keyOf L a = keyOf L b"
  by (simp add: skey_def keyOf_def)

lemma distinct_skey_entries:
  assumes "distinct ord" "set ord \<subseteq> set (keys L ts)"
  shows "distinct (map skey (map (entry L ts) ord))"
proof -
  have "inj_on (\<lambda>k. skey (entry L ts k)) (set ord)"
  proof (rule inj_onI)
    fix j k assume jk: "j \<in> set ord" "k \<in> set ord"
      and sk: "skey (entry L ts j) = skey (entry L ts k)"
    from sk have e: "keyOf L (entry L ts j) = keyOf L (entry L ts k)" by (rule skey_keyOf)
    from jk assms(2) have "j \<in> set (keys L ts)" "k \<in> set (keys L ts)" by auto
    then have "keyOf L (entry L ts j) = j" "keyOf L (entry L ts k) = k"
      by (simp_all add: keyOf_entry)
    with e show "j = k" by simp
  qed
  with assms(1) show ?thesis by (simp add: distinct_map comp_def)
qed

subsection \<open>The rank that the updates of Best leave\<close>

lemma posRanks_snoc:
  "posRanks (g @ [s]) = posRanks g @ (if 0 < Rank s then [Rank s] else [])"
  by (simp add: posRanks_def)

lemma bestRank_pos: "posRanks g \<noteq> [] \<Longrightarrow> 0 < bestRank g"
proof -
  assume ne: "posRanks g \<noteq> []"
  then have "Min (set (posRanks g)) \<in> set (posRanks g)" by (intro Min_in) simp_all
  then have "0 < Min (set (posRanks g))" by (simp add: posRanks_def)
  with ne show ?thesis by (simp add: bestRank_def)
qed

lemma bestRank_snoc:
  "bestRank (g @ [s]) =
     (if 0 < Rank s \<and> (bestRank g = 0 \<or> Rank s < bestRank g) then Rank s else bestRank g)"
proof (cases "0 < Rank s")
  case False
  then show ?thesis by (simp add: bestRank_def posRanks_snoc)
next
  case True
  show ?thesis
  proof (cases "posRanks g = []")
    case True
    with \<open>0 < Rank s\<close> show ?thesis by (simp add: bestRank_def posRanks_snoc)
  next
    case False
    then have "0 < bestRank g" by (rule bestRank_pos)
    moreover from False have "bestRank (g @ [s]) = min (Rank s) (bestRank g)"
      using \<open>0 < Rank s\<close> by (simp add: bestRank_def posRanks_snoc)
    ultimately show ?thesis using \<open>0 < Rank s\<close> by (simp add: min_def)
  qed
qed

lemma better_apply:
  "better b s = (if 0 < Rank s \<and> (Rank b = 0 \<or> Rank s < Rank b) then s else b)"
  by (simp add: better_def)

lemma rank_foldl_better:
  "0 \<le> Rank t \<Longrightarrow> Rank (foldl better t ts) = bestRank (t # ts)"
proof (induction ts rule: rev_induct)
  case Nil
  then show ?case by (simp add: bestRank_def posRanks_def)
next
  case (snoc s ts)
  define b where "b = foldl better t ts"
  from snoc have b: "Rank b = bestRank (t # ts)" by (simp add: b_def)
  have "foldl better t (ts @ [s]) = better b s" by (simp add: b_def)
  moreover have "Rank (better b s) = bestRank ((t # ts) @ [s])"
    unfolding bestRank_snoc b[symmetric] by (auto simp: better_apply)
  ultimately show ?case by simp
qed

lemma rank_foldl_better_neg:
  "Rank t < 0 \<Longrightarrow> foldl better t ts = t"
proof (induction ts rule: rev_induct)
  case Nil
  show ?case by simp
next
  case (snoc s ts)
  then have "foldl better t (ts @ [s]) = better t s" by simp
  also from snoc(2) have "\<dots> = t" by (auto simp: better_apply)
  finally show ?case .
qed

lemma rank_entry:
  assumes "k \<in> set (keys L ts)" "0 \<le> Rank (hd (group L k ts))"
  shows "Rank (entry L ts k) = bestRank (group L k ts)"
proof -
  from assms(1) have "group L k ts \<noteq> []" by (simp add: set_keys group_empty_iff)
  then have g: "hd (group L k ts) # tl (group L k ts) = group L k ts" by simp
  have "Rank (entry L ts k) = Rank (foldl better (hd (group L k ts)) (tl (group L k ts)))"
    by (simp add: entry_def emit_def acc_of_def)
  also from assms(2) have "\<dots> = bestRank (hd (group L k ts) # tl (group L k ts))"
    by (rule rank_foldl_better)
  finally show ?thesis by (simp only: g)
qed

lemma rank_entry_neg:
  assumes "k \<in> set (keys L ts)" "Rank (hd (group L k ts)) < 0"
  shows "Rank (entry L ts k) = Rank (hd (group L k ts))"
  using assms(2) by (simp add: entry_def emit_def acc_of_def rank_foldl_better_neg)

subsection \<open>The sorted list and its truncation\<close>

lemma merged_weighted:
  "merged_list ord (foldl (add_weighted L wy wo) (foldl (add_weighted L wy wo) Map.empty yahoo) google) =
   map (entry L (yahoo @ google)) (filter (\<lambda>k. k \<in> set (keys L (yahoo @ google))) ord)"
proof -
  have "foldl (add_weighted L wy wo) (foldl (add_weighted L wy wo) Map.empty yahoo) google =
        acc_spec L wy wo (yahoo @ google)"
    by (simp add: foldl_add_spec[symmetric])
  then show ?thesis by (simp only: merged_list_spec)
qed

lemma merged_accumulate:
  assumes "range_order ord (accumulate L yahoo google)"
  shows "merged_list ord (accumulate L yahoo google) = map (entry L (yahoo @ google)) ord"
proof -
  from assms have "set ord = set (keys L (yahoo @ google))" by (simp add: range_order_iff)
  then show ?thesis by (simp add: accumulate_spec merged_list_range)
qed

text \<open>The sorted list before the truncation.\<close>

lemma sorted_entries:
  assumes "distinct ord" "set ord = set (keys L ts)"
  defines "m \<equiv> sort_Slice less_fn (map (entry L ts) ord)"
  shows "distinct (map (keyOf L) m)"
    and "set (map (keyOf L) m) = set (keys L ts)"
    and "length m = length (keys L ts)"
    and "sorted_wrt less_fn m"
    and "set m = entry L ts ` set (keys L ts)"
proof -
  have ms: "mset m = mset (map (entry L ts) ord)"
    by (simp add: m_def mset_sort_Slice)
  then have "mset (map (keyOf L) m) = mset (map (keyOf L) (map (entry L ts) ord))"
    by (metis mset_map)
  also have "\<dots> = mset ord" using assms(2) by (simp only: keys_of_entries[OF equalityD1])
  finally have mk: "mset (map (keyOf L) m) = mset ord" .
  from mk assms(1) show "distinct (map (keyOf L) m)"
    by (metis mset_eq_imp_distinct_iff)
  from mk have "set (map (keyOf L) m) = set ord" by (rule mset_eq_setD)
  with assms(2) show "set (map (keyOf L) m) = set (keys L ts)" by simp
  have "length m = length ord" by (simp add: m_def length_sort_Slice)
  also have "\<dots> = length (keys L ts)"
    using assms(1,2) distinct_keys[of L ts] by (metis distinct_card)
  finally show "length m = length (keys L ts)" .
  from assms(1,2) have "distinct (map skey (map (entry L ts) ord))"
    by (intro distinct_skey_entries) simp_all
  then show "sorted_wrt less_fn m" unfolding m_def by (rule sort_Slice_strict)
  show "set m = entry L ts ` set (keys L ts)"
    using assms(2) by (simp add: m_def set_sort_Slice)
qed

lemma mergeAndRank_unfold:
  assumes "range_order ord (accumulate L yahoo google)"
  shows "mergeAndRank L ord yahoo google topN =
     (let m = sort_Slice less_fn (map (entry L (yahoo @ google)) ord) in
      if topN > 0 \<and> int (length m) > topN then take (nat topN) m else m)"
  using merged_accumulate[OF assms] by (simp add: mergeAndRank_def)

lemma sorted_entries_order_free:
  assumes "distinct ord" "set ord = set (keys L ts)"
    and "distinct ord'" "set ord' = set (keys L ts)"
  shows "sort_Slice less_fn (map (entry L ts) ord') = sort_Slice less_fn (map (entry L ts) ord)"
proof (rule sort_Slice_unique)
  from assms(1,2) show "distinct (map skey (map (entry L ts) ord))"
    by (intro distinct_skey_entries) simp_all
  from assms have "mset ord' = mset ord"
    by (metis set_eq_iff_mset_eq_distinct)
  then have "mset (map (entry L ts) ord') = mset (map (entry L ts) ord)"
    by (metis mset_map)
  then show "mset (sort_Slice less_fn (map (entry L ts) ord')) = mset (map (entry L ts) ord)"
    by (simp add: mset_sort_Slice)
  have "sorted (map skey (sort_Slice less_fn (map (entry L ts) ord')))"
    by (rule sorted_sort_Slice)
  then show "sorted_wrt (\<lambda>a b. \<not> less_fn b a) (sort_Slice less_fn (map (entry L ts) ord'))"
    by (simp add: sorted_wrt_map less_fn_skey not_less)
qed

lemma count_key:
  "distinct (map f xs) \<Longrightarrow>
   length (filter (\<lambda>u. f u = k) xs) = (if k \<in> f ` set xs then 1 else 0)"
  by (induction xs) auto

lemma keyOf_in_keys: "t \<in> set ts \<Longrightarrow> keyOf L t \<noteq> [] \<Longrightarrow> keyOf L t \<in> set (keys L ts)"
  by (simp add: set_keys)

section \<open>The claims about mergeAndRank\<close>

text \<open>
  C1. The claim says that every title of either input list appears exactly once, by its
  normalized key, in the output of \<open>mergeAndRank\<close>. The code drops a title whose key is
  empty and cuts the sorted list to \<open>topN\<close> entries. What holds: no key occurs twice in
  the output; every output entry has a non-empty key that is the key of an input title;
  a title with an empty key never appears; when the list is not cut (\<open>topN \<le> 0\<close> or
  at most \<open>topN\<close> distinct non-empty keys) every input title with a non-empty key
  appears exactly once; and the output has \<open>topN\<close> entries when it is cut.
\<close>

theorem mergeAndRank_each_key_once:
  assumes "range_order ord (accumulate L yahoo google)"
  shows "(\<forall>t \<in> set (yahoo @ google).
            length (filter (\<lambda>u. keyOf L u = keyOf L t) (mergeAndRank L ord yahoo google topN)) \<le> 1)
       \<and> (\<forall>u \<in> set (mergeAndRank L ord yahoo google topN).
            keyOf L u \<noteq> [] \<and> keyOf L u \<in> keyOf L ` set (yahoo @ google))
       \<and> (\<forall>t \<in> set (yahoo @ google). keyOf L t = [] \<longrightarrow>
            length (filter (\<lambda>u. keyOf L u = keyOf L t) (mergeAndRank L ord yahoo google topN)) = 0)
       \<and> (topN \<le> 0 \<or> int (length (keys L (yahoo @ google))) \<le> topN \<longrightarrow>
            (\<forall>t \<in> set (yahoo @ google). keyOf L t \<noteq> [] \<longrightarrow>
               length (filter (\<lambda>u. keyOf L u = keyOf L t) (mergeAndRank L ord yahoo google topN)) = 1))
       \<and> length (mergeAndRank L ord yahoo google topN) =
            (if topN > 0 \<and> int (length (keys L (yahoo @ google))) > topN then nat topN
             else length (keys L (yahoo @ google)))"
proof -
  define ts where "ts = yahoo @ google"
  define m where "m = sort_Slice less_fn (map (entry L ts) ord)"
  define out where "out = mergeAndRank L ord yahoo google topN"
  from assms have ord: "distinct ord" "set ord = set (keys L ts)"
    by (simp_all add: range_order_iff ts_def)
  note se = sorted_entries[OF ord, folded m_def]
  have out: "out = (if topN > 0 \<and> int (length m) > topN then take (nat topN) m else m)"
    using mergeAndRank_unfold[OF assms, of topN] by (simp add: out_def m_def ts_def Let_def)
  have dist: "distinct (map (keyOf L) out)"
    using se(1) by (simp add: out take_map[symmetric])
  have sub: "set out \<subseteq> set m"
    by (auto simp: out dest: in_set_takeD)
  have keys_out: "keyOf L ` set out \<subseteq> set (keys L ts)"
    using sub se(2) by auto
  have cnt: "\<And>k. length (filter (\<lambda>u. keyOf L u = k) out) = (if k \<in> keyOf L ` set out then 1 else 0)"
    using dist by (rule count_key)
  have 1: "\<forall>t \<in> set ts. length (filter (\<lambda>u. keyOf L u = keyOf L t) out) \<le> 1"
    by (simp add: cnt)
  have 2: "\<forall>u \<in> set out. keyOf L u \<noteq> [] \<and> keyOf L u \<in> keyOf L ` set ts"
    using keys_out by (auto simp: set_keys)
  have 3: "\<forall>t \<in> set ts. keyOf L t = [] \<longrightarrow>
             length (filter (\<lambda>u. keyOf L u = keyOf L t) out) = 0"
    using 2 by (auto simp: cnt)
  have 4: "topN \<le> 0 \<or> int (length (keys L ts)) \<le> topN \<longrightarrow>
            (\<forall>t \<in> set ts. keyOf L t \<noteq> [] \<longrightarrow>
               length (filter (\<lambda>u. keyOf L u = keyOf L t) out) = 1)"
  proof (intro impI ballI)
    fix t assume c: "topN \<le> 0 \<or> int (length (keys L ts)) \<le> topN"
      and t: "t \<in> set ts" "keyOf L t \<noteq> []"
    from c have "out = m" by (auto simp: out se(3))
    with se(2) have "keyOf L ` set out = set (keys L ts)" by simp
    with t have "keyOf L t \<in> keyOf L ` set out" by (simp add: keyOf_in_keys)
    then show "length (filter (\<lambda>u. keyOf L u = keyOf L t) out) = 1" by (simp add: cnt)
  qed
  have 5: "length out = (if topN > 0 \<and> int (length (keys L ts)) > topN then nat topN
             else length (keys L ts))"
    by (auto simp: out se(3))
  from 1 2 3 4 5 show ?thesis unfolding out_def ts_def by blast
qed

theorem mergeAndRank_each_key_once_witness:
  "range_order [''a'', ''b''] (accumulate ascii [topic ''yahoo'' ''A '' 1, topic ''yahoo'' ''b'' 2] [topic ''google'' ''a'' 1])
   \<and> length (filter (\<lambda>u. keyOf ascii u = ''a'')
        (mergeAndRank ascii [''a'', ''b''] [topic ''yahoo'' ''A '' 1, topic ''yahoo'' ''b'' 2] [topic ''google'' ''a'' 1] 0)) = 1
   \<and> length (mergeAndRank ascii [''a'', ''b''] [topic ''yahoo'' ''A '' 1, topic ''yahoo'' ''b'' 2] [topic ''google'' ''a'' 1] 0) = 2"
proof -
  let ?y = "[topic ''yahoo'' ''A '' 1, topic ''yahoo'' ''b'' 2]"
  let ?g = "[topic ''google'' ''a'' 1]"
  have h: "range_order [''a'', ''b''] (accumulate ascii ?y ?g)"
    unfolding range_order_iff by code_simp
  have k: "keyOf ascii (topic ''google'' ''a'' 1) = ''a''" by code_simp
  have n: "length (keys ascii (?y @ ?g)) = 2" by code_simp
  have t: "topic ''google'' ''a'' 1 \<in> set (?y @ ?g)" by simp
  note T = mergeAndRank_each_key_once[OF h, of 0]
  from T[THEN conjunct2, THEN conjunct2, THEN conjunct2, THEN conjunct1] t k
  have "length (filter (\<lambda>u. keyOf ascii u = ''a'') (mergeAndRank ascii [''a'', ''b''] ?y ?g 0)) = 1"
    by fastforce
  moreover from T[THEN conjunct2, THEN conjunct2, THEN conjunct2, THEN conjunct2] n
  have "length (mergeAndRank ascii [''a'', ''b''] ?y ?g 0) = 2" by simp
  ultimately show ?thesis using h by simp
qed

text \<open>
  The claim C1 as stated fails on both counts: with \<open>topN = 1\<close> the title \<open>B\<close> of the
  second list has no entry in the output, and with \<open>topN = 0\<close> the blank title has none.
\<close>

theorem mergeAndRank_each_key_once_counterexample:
  "range_order [''a'', ''b''] (accumulate ascii [topic ''yahoo'' ''A'' 1] [topic ''google'' ''B'' 1])
   \<and> keyOf ascii (topic ''google'' ''B'' 1) = ''b''
   \<and> map (keyOf ascii)
        (mergeAndRank ascii [''a'', ''b''] [topic ''yahoo'' ''A'' 1] [topic ''google'' ''B'' 1] 1) = [''a'']
   \<and> range_order [''a''] (accumulate ascii [topic ''yahoo'' ''A'' 1, topic ''yahoo'' ''  '' 2] [])
   \<and> keyOf ascii (topic ''yahoo'' ''  '' 2) = []
   \<and> map (keyOf ascii)
        (mergeAndRank ascii [''a''] [topic ''yahoo'' ''A'' 1, topic ''yahoo'' ''  '' 2] [] 0) = [''a'']"
proof -
  have "range_order [''a'', ''b''] (accumulate ascii [topic ''yahoo'' ''A'' 1] [topic ''google'' ''B'' 1])"
    unfolding range_order_iff by code_simp
  moreover have "keyOf ascii (topic ''google'' ''B'' 1) = ''b''" by code_simp
  moreover have "map (keyOf ascii)
        (mergeAndRank ascii [''a'', ''b''] [topic ''yahoo'' ''A'' 1] [topic ''google'' ''B'' 1] 1) = [''a'']"
    by code_simp
  moreover have "range_order [''a''] (accumulate ascii [topic ''yahoo'' ''A'' 1, topic ''yahoo'' ''  '' 2] [])"
    unfolding range_order_iff by code_simp
  moreover have "keyOf ascii (topic ''yahoo'' ''  '' 2) = []" by code_simp
  moreover have "map (keyOf ascii)
        (mergeAndRank ascii [''a''] [topic ''yahoo'' ''A'' 1, topic ''yahoo'' ''  '' 2] [] 0) = [''a'']"
    by code_simp
  ultimately show ?thesis by blast
qed

text \<open>
  C2. The list that \<open>mergeAndRank\<close> returns is sorted by the comparison function, which
  is a strict total order on rank and title: an entry of rank 0 never precedes an entry
  of positive rank, of two entries of positive rank the earlier has the smaller or the
  same rank, and of two entries of the same rank the earlier has the smaller title.
\<close>

theorem mergeAndRank_sorted:
  assumes "range_order ord (accumulate L yahoo google)"
  shows "sorted_wrt less_fn (mergeAndRank L ord yahoo google topN)
       \<and> (\<forall>i j. i < j \<and> j < length (mergeAndRank L ord yahoo google topN) \<longrightarrow>
            \<not> (Rank (mergeAndRank L ord yahoo google topN ! i) = 0
               \<and> 0 < Rank (mergeAndRank L ord yahoo google topN ! j))
          \<and> (0 < Rank (mergeAndRank L ord yahoo google topN ! i)
               \<and> 0 < Rank (mergeAndRank L ord yahoo google topN ! j)
             \<longrightarrow> Rank (mergeAndRank L ord yahoo google topN ! i)
                   \<le> Rank (mergeAndRank L ord yahoo google topN ! j))
          \<and> (Rank (mergeAndRank L ord yahoo google topN ! i)
               = Rank (mergeAndRank L ord yahoo google topN ! j)
             \<longrightarrow> Title (mergeAndRank L ord yahoo google topN ! i)
                   < Title (mergeAndRank L ord yahoo google topN ! j)))
       \<and> (\<forall>a. \<not> less_fn a a)
       \<and> (\<forall>a b c. less_fn a b \<and> less_fn b c \<longrightarrow> less_fn a c)
       \<and> (\<forall>a b. less_fn a b \<or> less_fn b a \<or> (Rank a = Rank b \<and> Title a = Title b))"
proof -
  define out where "out = mergeAndRank L ord yahoo google topN"
  define m where "m = sort_Slice less_fn (map (entry L (yahoo @ google)) ord)"
  from assms have ord: "distinct ord" "set ord = set (keys L (yahoo @ google))"
    by (simp_all add: range_order_iff)
  have "sorted_wrt less_fn m"
    unfolding m_def by (rule sorted_entries(4)[OF ord])
  moreover have "out = (if topN > 0 \<and> int (length m) > topN then take (nat topN) m else m)"
    using mergeAndRank_unfold[OF assms, of topN] by (simp add: out_def m_def Let_def)
  ultimately have s: "sorted_wrt less_fn out"
    by simp
  have p: "\<forall>i j. i < j \<and> j < length out \<longrightarrow>
            \<not> (Rank (out ! i) = 0 \<and> 0 < Rank (out ! j))
          \<and> (0 < Rank (out ! i) \<and> 0 < Rank (out ! j) \<longrightarrow> Rank (out ! i) \<le> Rank (out ! j))
          \<and> (Rank (out ! i) = Rank (out ! j) \<longrightarrow> Title (out ! i) < Title (out ! j))"
  proof (intro allI impI)
    fix i j assume "i < j \<and> j < length out"
    with s have "less_fn (out ! i) (out ! j)"
      by (simp add: sorted_wrt_iff_nth_less)
    then show "\<not> (Rank (out ! i) = 0 \<and> 0 < Rank (out ! j))
          \<and> (0 < Rank (out ! i) \<and> 0 < Rank (out ! j) \<longrightarrow> Rank (out ! i) \<le> Rank (out ! j))
          \<and> (Rank (out ! i) = Rank (out ! j) \<longrightarrow> Title (out ! i) < Title (out ! j))"
      by (auto simp: less_fn_def split: if_splits)
  qed
  have o1: "\<forall>a. \<not> less_fn a a" by (simp add: less_fn_skey)
  have o2: "\<forall>a b c. less_fn a b \<and> less_fn b c \<longrightarrow> less_fn a c"
    by (auto simp: less_fn_skey)
  have o3: "\<forall>a b. less_fn a b \<or> less_fn b a \<or> (Rank a = Rank b \<and> Title a = Title b)"
  proof (intro allI)
    fix a b
    have "skey a < skey b \<or> skey b < skey a \<or> skey a = skey b" by auto
    then show "less_fn a b \<or> less_fn b a \<or> (Rank a = Rank b \<and> Title a = Title b)"
      by (auto simp: less_fn_skey) (simp_all add: skey_def)
  qed
  from s p o1 o2 o3 show ?thesis unfolding out_def by blast
qed

theorem mergeAndRank_sorted_witness:
  "range_order [''a'', ''b'', ''c'']
     (accumulate ascii [topic ''yahoo'' ''c'' 0, topic ''yahoo'' ''b'' 2] [topic ''google'' ''a'' 2])
   \<and> sorted_wrt less_fn
       (mergeAndRank ascii [''a'', ''b'', ''c'']
          [topic ''yahoo'' ''c'' 0, topic ''yahoo'' ''b'' 2] [topic ''google'' ''a'' 2] 0)
   \<and> map Title
       (mergeAndRank ascii [''a'', ''b'', ''c'']
          [topic ''yahoo'' ''c'' 0, topic ''yahoo'' ''b'' 2] [topic ''google'' ''a'' 2] 0)
       = [''a'', ''b'', ''c'']"
proof -
  let ?y = "[topic ''yahoo'' ''c'' 0, topic ''yahoo'' ''b'' 2]"
  let ?g = "[topic ''google'' ''a'' 2]"
  have h: "range_order [''a'', ''b'', ''c''] (accumulate ascii ?y ?g)"
    unfolding range_order_iff by code_simp
  have v: "map Title (mergeAndRank ascii [''a'', ''b'', ''c''] ?y ?g 0) = [''a'', ''b'', ''c'']"
    by code_simp
  from mergeAndRank_sorted[OF h, of 0, THEN conjunct1] h v show ?thesis by simp
qed

text \<open>
  C3. A rank is a position from 1 on, or 0 for absent, and the two adapters produce
  ranks from 1 on (\<open>fetchGoogleTrends_rank_pos\<close>, \<open>fetchYahooRealtime_rank_pos\<close>). On
  such inputs, that is when no input topic has a negative rank, the rank of every
  merged entry is the minimum positive rank among the topics that contribute to its
  key, and 0 when none of them has a positive rank. The condition on the ranks is
  needed: a group whose first topic has a negative rank keeps the rank of that topic
  (\<open>rank_entry_neg\<close>).
\<close>

theorem mergeAndRank_best_rank:
  assumes "range_order ord (accumulate L yahoo google)"
    and "\<forall>t \<in> set (yahoo @ google). 0 \<le> Rank t"
  shows "\<forall>u \<in> set (mergeAndRank L ord yahoo google topN).
           Rank u = bestRank (group L (keyOf L u) (yahoo @ google))"
proof
  fix u assume u: "u \<in> set (mergeAndRank L ord yahoo google topN)"
  define ts where "ts = yahoo @ google"
  from assms(1) have ord: "distinct ord" "set ord = set (keys L ts)"
    by (simp_all add: range_order_iff ts_def)
  have "set (mergeAndRank L ord yahoo google topN)
        \<subseteq> set (sort_Slice less_fn (map (entry L ts) ord))"
    using mergeAndRank_unfold[OF assms(1), of topN]
    by (auto simp: Let_def ts_def dest: in_set_takeD split: if_splits)
  with u sorted_entries(5)[OF ord] obtain k
    where k: "k \<in> set (keys L ts)" "u = entry L ts k" by auto
  then have ku: "keyOf L u = k" by (simp add: keyOf_entry)
  from k(1) have "group L k ts \<noteq> []" by (simp add: set_keys group_empty_iff)
  then have "hd (group L k ts) \<in> set ts"
    using hd_in_set[of "group L k ts"] by (auto simp: group_def)
  with assms(2) have "0 \<le> Rank (hd (group L k ts))" by (simp add: ts_def)
  with k show "Rank u = bestRank (group L (keyOf L u) (yahoo @ google))"
    unfolding ku by (simp add: rank_entry ts_def)
qed

theorem mergeAndRank_best_rank_witness:
  "range_order [''b'', ''a'']
     (accumulate ascii [topic ''yahoo'' ''A'' 3, topic ''yahoo'' ''A'' 1] [topic ''google'' ''B'' 2])
   \<and> list_all (\<lambda>t. 0 \<le> Rank t)
        ([topic ''yahoo'' ''A'' 3, topic ''yahoo'' ''A'' 1] @ [topic ''google'' ''B'' 2])
   \<and> mergeAndRank ascii [''b'', ''a'']
        [topic ''yahoo'' ''A'' 3, topic ''yahoo'' ''A'' 1] [topic ''google'' ''B'' 2] 0
      = [\<lparr>Source = ''mix'', Title = ''A'', Note = [], Rank = 1\<rparr>,
         \<lparr>Source = ''mix'', Title = ''B'', Note = [], Rank = 2\<rparr>]
   \<and> list_all
        (\<lambda>u. Rank u = bestRank (group ascii (keyOf ascii u)
                 ([topic ''yahoo'' ''A'' 3, topic ''yahoo'' ''A'' 1] @ [topic ''google'' ''B'' 2])))
        (mergeAndRank ascii [''b'', ''a'']
           [topic ''yahoo'' ''A'' 3, topic ''yahoo'' ''A'' 1] [topic ''google'' ''B'' 2] 0)"
proof -
  let ?y = "[topic ''yahoo'' ''A'' 3, topic ''yahoo'' ''A'' 1]"
  let ?g = "[topic ''google'' ''B'' 2]"
  have h: "range_order [''b'', ''a''] (accumulate ascii ?y ?g)"
    unfolding range_order_iff by code_simp
  have r: "\<forall>t \<in> set (?y @ ?g). 0 \<le> Rank t" by (simp add: topic_def)
  have v: "mergeAndRank ascii [''b'', ''a''] ?y ?g 0
      = [\<lparr>Source = ''mix'', Title = ''A'', Note = [], Rank = 1\<rparr>,
         \<lparr>Source = ''mix'', Title = ''B'', Note = [], Rank = 2\<rparr>]"
    by code_simp
  from h r v mergeAndRank_best_rank[OF h r, of 0] show ?thesis
    unfolding list_all_iff by blast
qed

text \<open>
  C4. The score is inert: \<open>emit\<close> does not read it, and \<open>mergeAndRank\<close> with any two
  weights in place of 3 and 2 returns the list that \<open>mergeAndRank\<close> returns.
\<close>

theorem mergeAndRank_score_inert:
  "mergeAndRank_weighted L wy wo ord yahoo google topN = mergeAndRank L ord yahoo google topN
   \<and> mergeAndRank_weighted L 3 2 = mergeAndRank L
   \<and> add_weighted L 3 2 = add L
   \<and> emit (a\<lparr> Score := s \<rparr>) = emit a"
proof -
  have w: "\<And>wy wo ord yahoo google topN.
      mergeAndRank_weighted L wy wo ord yahoo google topN =
      (let m = sort_Slice less_fn (map (entry L (yahoo @ google))
                 (filter (\<lambda>k. k \<in> set (keys L (yahoo @ google))) ord)) in
       if topN > 0 \<and> int (length m) > topN then take (nat topN) m else m)"
    by (simp only: mergeAndRank_weighted_def merged_weighted Let_def)
  have m: "\<And>ord yahoo google topN.
      mergeAndRank L ord yahoo google topN = mergeAndRank_weighted L 3 2 ord yahoo google topN"
    by (simp add: mergeAndRank_def mergeAndRank_weighted_def accumulate_def add_eq_weighted)
  have 1: "mergeAndRank_weighted L wy wo ord yahoo google topN = mergeAndRank L ord yahoo google topN"
    unfolding m by (simp only: w)
  have 2: "mergeAndRank_weighted L 3 2 = mergeAndRank L"
    by (intro ext) (simp only: m)
  have 3: "add_weighted L 3 2 = add L" by (simp add: add_eq_weighted)
  have 4: "emit (a\<lparr> Score := s \<rparr>) = emit a" by (simp add: emit_def)
  from 1 2 3 4 show ?thesis by blast
qed

text \<open>
  C5. The claim says that for every cap \<open>topN\<close> the two orders of the arguments give the
  same set of normalized titles. The cut to \<open>topN\<close> entries follows the sort, the sort
  compares the display titles, and the display title of a key is the first one seen;
  so the two orders can keep different keys. What holds: when the list is not cut
  (\<open>topN \<le> 0\<close> or at most \<open>topN\<close> distinct non-empty keys) the two outputs have the
  same set of normalized titles.
\<close>

theorem mergeAndRank_commutes_in_keys:
  assumes "range_order ord (accumulate L A B)"
    and "range_order ord' (accumulate L B A)"
    and "topN \<le> 0 \<or> int (length (keys L (A @ B))) \<le> topN"
  shows "set (map (keyOf L) (mergeAndRank L ord A B topN)) =
         set (map (keyOf L) (mergeAndRank L ord' B A topN))"
proof -
  from assms(1) have o1: "distinct ord" "set ord = set (keys L (A @ B))"
    by (simp_all add: range_order_iff)
  from assms(2) have o2: "distinct ord'" "set ord' = set (keys L (B @ A))"
    by (simp_all add: range_order_iff)
  have same: "set (keys L (B @ A)) = set (keys L (A @ B))"
    by (auto simp: set_keys)
  then have "card (set (keys L (B @ A))) = card (set (keys L (A @ B)))" by simp
  then have len: "length (keys L (B @ A)) = length (keys L (A @ B))"
    by (simp add: distinct_card distinct_keys)
  note s1 = sorted_entries[OF o1] and s2 = sorted_entries[OF o2]
  from assms(3) have "mergeAndRank L ord A B topN = sort_Slice less_fn (map (entry L (A @ B)) ord)"
    using mergeAndRank_unfold[OF assms(1), of topN] s1(3) by (auto simp: Let_def)
  moreover from assms(3) len
  have "mergeAndRank L ord' B A topN = sort_Slice less_fn (map (entry L (B @ A)) ord')"
    using mergeAndRank_unfold[OF assms(2), of topN] s2(3) by (auto simp: Let_def)
  ultimately show ?thesis using s1(2) s2(2) same by simp
qed

theorem mergeAndRank_commutes_in_keys_witness:
  "range_order [''a'', ''b'']
     (accumulate ascii [topic ''yahoo'' ''B'' 1, topic ''yahoo'' ''a'' 2]
                       [topic ''google'' ''A'' 1, topic ''google'' ''b'' 2])
   \<and> range_order [''b'', ''a'']
     (accumulate ascii [topic ''google'' ''A'' 1, topic ''google'' ''b'' 2]
                       [topic ''yahoo'' ''B'' 1, topic ''yahoo'' ''a'' 2])
   \<and> set (map (keyOf ascii)
        (mergeAndRank ascii [''a'', ''b''] [topic ''yahoo'' ''B'' 1, topic ''yahoo'' ''a'' 2]
                       [topic ''google'' ''A'' 1, topic ''google'' ''b'' 2] 0))
     = set (map (keyOf ascii)
        (mergeAndRank ascii [''b'', ''a''] [topic ''google'' ''A'' 1, topic ''google'' ''b'' 2]
                       [topic ''yahoo'' ''B'' 1, topic ''yahoo'' ''a'' 2] 0))"
proof -
  let ?A = "[topic ''yahoo'' ''B'' 1, topic ''yahoo'' ''a'' 2]"
  let ?B = "[topic ''google'' ''A'' 1, topic ''google'' ''b'' 2]"
  have h1: "range_order [''a'', ''b''] (accumulate ascii ?A ?B)"
    unfolding range_order_iff by code_simp
  have h2: "range_order [''b'', ''a''] (accumulate ascii ?B ?A)"
    unfolding range_order_iff by code_simp
  have h3: "(0::int) \<le> 0 \<or> int (length (keys ascii (?A @ ?B))) \<le> 0" by simp
  from h1 h2 mergeAndRank_commutes_in_keys[OF h1 h2 h3] show ?thesis by blast
qed

text \<open>
  The claim C5 as stated fails with \<open>topN = 1\<close>: each list ranks one of two titles
  first, under display titles that differ in case, and the two orders keep different
  keys.
\<close>

theorem mergeAndRank_commutes_in_keys_counterexample:
  "range_order [''a'', ''b'']
     (accumulate ascii [topic ''yahoo'' ''B'' 1, topic ''yahoo'' ''a'' 2]
                       [topic ''google'' ''A'' 1, topic ''google'' ''b'' 2])
   \<and> range_order [''a'', ''b'']
     (accumulate ascii [topic ''google'' ''A'' 1, topic ''google'' ''b'' 2]
                       [topic ''yahoo'' ''B'' 1, topic ''yahoo'' ''a'' 2])
   \<and> map (keyOf ascii)
        (mergeAndRank ascii [''a'', ''b''] [topic ''yahoo'' ''B'' 1, topic ''yahoo'' ''a'' 2]
                       [topic ''google'' ''A'' 1, topic ''google'' ''b'' 2] 1) = [''b'']
   \<and> map (keyOf ascii)
        (mergeAndRank ascii [''a'', ''b''] [topic ''google'' ''A'' 1, topic ''google'' ''b'' 2]
                       [topic ''yahoo'' ''B'' 1, topic ''yahoo'' ''a'' 2] 1) = [''a'']"
proof -
  let ?A = "[topic ''yahoo'' ''B'' 1, topic ''yahoo'' ''a'' 2]"
  let ?B = "[topic ''google'' ''A'' 1, topic ''google'' ''b'' 2]"
  have "range_order [''a'', ''b''] (accumulate ascii ?A ?B)"
    unfolding range_order_iff by code_simp
  moreover have "range_order [''a'', ''b''] (accumulate ascii ?B ?A)"
    unfolding range_order_iff by code_simp
  moreover have "map (keyOf ascii) (mergeAndRank ascii [''a'', ''b''] ?A ?B 1) = [''b'']"
    by code_simp
  moreover have "map (keyOf ascii) (mergeAndRank ascii [''a'', ''b''] ?B ?A 1) = [''a'']"
    by code_simp
  ultimately show ?thesis by blast
qed

text \<open>
  C9. \<open>mergeAndRank\<close> is deterministic: every order in which the range over the map can
  visit the keys gives the same output. Two keys of the map have different stored
  titles, so the comparison function decides every pair of merged entries, and the
  merged list has one sorted permutation: whatever permutation \<open>sort.Slice\<close> returns
  is the one of the model.
\<close>

theorem mergeAndRank_deterministic:
  assumes "range_order ord (accumulate L yahoo google)"
    and "range_order ord' (accumulate L yahoo google)"
  shows "mergeAndRank L ord' yahoo google topN = mergeAndRank L ord yahoo google topN
       \<and> (\<forall>k k' a a'. accumulate L yahoo google k = Some a
             \<and> accumulate L yahoo google k' = Some a' \<and> k \<noteq> k'
             \<longrightarrow> accTitle a \<noteq> accTitle a')
       \<and> distinct (map Title (merged_list ord (accumulate L yahoo google)))
       \<and> (\<forall>a \<in> set (merged_list ord (accumulate L yahoo google)).
          \<forall>b \<in> set (merged_list ord (accumulate L yahoo google)).
             a \<noteq> b \<longrightarrow> less_fn a b \<or> less_fn b a)
       \<and> (\<forall>xs. mset xs = mset (merged_list ord (accumulate L yahoo google))
             \<and> sorted_wrt (\<lambda>a b. \<not> less_fn b a) xs
             \<longrightarrow> xs = sort_Slice less_fn (merged_list ord (accumulate L yahoo google)))"
proof -
  define ts where "ts = yahoo @ google"
  define m where "m = merged_list ord (accumulate L yahoo google)"
  from assms(1) have o1: "distinct ord" "set ord = set (keys L ts)"
    by (simp_all add: range_order_iff ts_def)
  from assms(2) have o2: "distinct ord'" "set ord' = set (keys L ts)"
    by (simp_all add: range_order_iff ts_def)
  have m: "m = map (entry L ts) ord"
    unfolding m_def ts_def by (rule merged_accumulate[OF assms(1)])
  have dk: "distinct (map skey m)"
    unfolding m using o1 by (intro distinct_skey_entries) simp_all
  have 1: "mergeAndRank L ord' yahoo google topN = mergeAndRank L ord yahoo google topN"
    using sorted_entries_order_free[OF o1 o2]
    by (simp add: mergeAndRank_unfold[OF assms(1)] mergeAndRank_unfold[OF assms(2)] ts_def)
  have 2: "\<forall>k k' a a'. accumulate L yahoo google k = Some a
             \<and> accumulate L yahoo google k' = Some a' \<and> k \<noteq> k'
             \<longrightarrow> accTitle a \<noteq> accTitle a'"
  proof (intro allI impI notI)
    fix k k' a a'
    assume h: "accumulate L yahoo google k = Some a
             \<and> accumulate L yahoo google k' = Some a' \<and> k \<noteq> k'"
      and e: "accTitle a = accTitle a'"
    from h have g: "group L k ts \<noteq> []" "group L k' ts \<noteq> []"
      and a: "a = acc_of 3 2 (group L k ts)" "a' = acc_of 3 2 (group L k' ts)"
      by (auto simp: accumulate_spec acc_spec_def ts_def split: if_splits)
    from e a have "Title (hd (group L k ts)) = Title (hd (group L k' ts))"
      by (simp add: acc_of_def)
    then have "keyOf L (hd (group L k ts)) = keyOf L (hd (group L k' ts))"
      by (simp add: keyOf_def)
    with g have "k = k'" by (simp add: hd_group_key)
    with h show False by simp
  qed
  have "map (keyOf L) (map (entry L ts) ord) = ord"
    using o1(2) by (intro keys_of_entries) simp
  with o1(1) have "distinct (map (keyOf L) m)"
    unfolding m by (simp only:)
  then have "distinct (map (\<lambda>t. ToLower L (TrimSpace L (Title t))) m)"
    by (simp add: keyOf_def[abs_def])
  then have 3: "distinct (map Title m)"
    by (rule distinct_map_comp)
  have 4: "\<forall>a \<in> set m. \<forall>b \<in> set m. a \<noteq> b \<longrightarrow> less_fn a b \<or> less_fn b a"
  proof (intro ballI impI)
    fix a b assume ab: "a \<in> set m" "b \<in> set m" "a \<noteq> b"
    from dk have "inj_on skey (set m)" by (simp add: distinct_map)
    with ab have "skey a \<noteq> skey b" by (auto dest: inj_onD)
    then show "less_fn a b \<or> less_fn b a" by (auto simp: less_fn_skey)
  qed
  have 5: "\<forall>xs. mset xs = mset m \<and> sorted_wrt (\<lambda>a b. \<not> less_fn b a) xs
             \<longrightarrow> xs = sort_Slice less_fn m"
    using dk by (auto intro: sort_Slice_unique)
  from 1 2 3 4 5 show ?thesis unfolding m_def by blast
qed

theorem mergeAndRank_deterministic_witness:
  "range_order [''a'', ''b'', ''c'']
     (accumulate ascii [topic ''yahoo'' ''c'' 1, topic ''yahoo'' ''b'' 2]
                       [topic ''google'' ''a'' 1, topic ''google'' ''C'' 2])
   \<and> range_order [''c'', ''a'', ''b'']
     (accumulate ascii [topic ''yahoo'' ''c'' 1, topic ''yahoo'' ''b'' 2]
                       [topic ''google'' ''a'' 1, topic ''google'' ''C'' 2])
   \<and> mergeAndRank ascii [''c'', ''a'', ''b''] [topic ''yahoo'' ''c'' 1, topic ''yahoo'' ''b'' 2]
                       [topic ''google'' ''a'' 1, topic ''google'' ''C'' 2] 2
     = mergeAndRank ascii [''a'', ''b'', ''c''] [topic ''yahoo'' ''c'' 1, topic ''yahoo'' ''b'' 2]
                       [topic ''google'' ''a'' 1, topic ''google'' ''C'' 2] 2
   \<and> map Title (mergeAndRank ascii [''a'', ''b'', ''c''] [topic ''yahoo'' ''c'' 1, topic ''yahoo'' ''b'' 2]
                       [topic ''google'' ''a'' 1, topic ''google'' ''C'' 2] 2) = [''a'', ''c'']"
proof -
  let ?y = "[topic ''yahoo'' ''c'' 1, topic ''yahoo'' ''b'' 2]"
  let ?g = "[topic ''google'' ''a'' 1, topic ''google'' ''C'' 2]"
  have h1: "range_order [''a'', ''b'', ''c''] (accumulate ascii ?y ?g)"
    unfolding range_order_iff by code_simp
  have h2: "range_order [''c'', ''a'', ''b''] (accumulate ascii ?y ?g)"
    unfolding range_order_iff by code_simp
  have v: "map Title (mergeAndRank ascii [''a'', ''b'', ''c''] ?y ?g 2) = [''a'', ''c'']"
    by code_simp
  from mergeAndRank_deterministic[OF h1 h2, of 2, THEN conjunct1] h1 h2 v
  show ?thesis by simp
qed

section \<open>Properties of fetchGoogleTrends\<close>

subsection \<open>The feed loop\<close>

lemma ex_less_Suc_shift: "(\<exists>j<Suc n. P j) \<longleftrightarrow> P 0 \<or> (\<exists>j<n. P (Suc j))"
  by (auto simp: less_Suc_eq_0_disj)

lemma collectItems_spec:
  "(maxn > 0 \<longrightarrow> int (length topics) < maxn) \<Longrightarrow>
   collectItems L maxn i items topics =
     topics @ (if maxn > 0 then take (nat maxn - length topics) (survivors L i items)
               else survivors L i items)"
proof (induction items arbitrary: i topics)
  case Nil
  show ?case by simp
next
  case (Cons it its)
  show ?case
  proof (cases "TrimSpace L (ItemTitle it) = []")
    case True
    with Cons show ?thesis by simp
  next
    case False
    let ?t = "itemTopic L i it"
    show ?thesis
    proof (cases "maxn > 0 \<and> int (length (topics @ [?t])) \<ge> maxn")
      case True
      with Cons.prems have "nat maxn - length topics = 1" by auto
      with True False show ?thesis by (simp add: itemTopic_def Let_def)
    next
      case stop: False
      then have "maxn > 0 \<longrightarrow> int (length (topics @ [?t])) < maxn" by auto
      from Cons.IH[OF this, of "i + 1"] stop False Cons.prems show ?thesis
        by (auto simp: itemTopic_def Let_def take_Cons' nat_diff_distrib)
    qed
  qed
qed

lemma collectItems_start:
  "collectItems L maxn 0 items [] =
     (if maxn > 0 then take (nat maxn) (survivors L 0 items) else survivors L 0 items)"
  using collectItems_spec[of maxn "[]" L 0 items] by simp

lemma in_survivors:
  "t \<in> set (survivors L i items) \<longleftrightarrow>
   (\<exists>j<length items. TrimSpace L (ItemTitle (items ! j)) \<noteq> [] \<and> t = itemTopic L (i + j) (items ! j))"
proof (induction items arbitrary: i)
  case Nil
  show ?case by simp
next
  case (Cons it its)
  show ?case
    by (simp add: Cons.IH ex_less_Suc_shift)
qed

lemma survivors_empty:
  "survivors L i items = [] \<longleftrightarrow> \<not> list_ex (\<lambda>it. TrimSpace L (ItemTitle it) \<noteq> []) items"
  by (induction items arbitrary: i) auto

lemma collectItems_empty:
  "collectItems L maxn 0 items [] = [] \<longleftrightarrow> \<not> list_ex (\<lambda>it. TrimSpace L (ItemTitle it) \<noteq> []) items"
  by (auto simp: collectItems_start survivors_empty)

lemma in_collectItems:
  assumes "t \<in> set (collectItems L maxn 0 items [])"
  shows "\<exists>j<length items. TrimSpace L (ItemTitle (items ! j)) \<noteq> [] \<and> t = itemTopic L j (items ! j)"
proof -
  from assms have "t \<in> set (survivors L 0 items)"
    by (auto simp: collectItems_start dest: in_set_takeD split: if_splits)
  then show ?thesis by (simp add: in_survivors)
qed

subsection \<open>The loop over the URLs\<close>

lemma tryUrl_succeeds: "(\<exists>topics. tryUrl L maxn url r = Inr topics) \<longleftrightarrow> succeeds L r"
  by (auto simp: tryUrl_def succeeds_def Let_def collectItems_empty split: sum.splits)

lemma tryUrl_Inr:
  "tryUrl L maxn url r = Inr topics \<Longrightarrow>
   topics \<noteq> [] \<and> (\<exists>resp items. r = Inr resp \<and> xmlDecode L (Body resp) = Inr items
      \<and> topics = collectItems L maxn 0 items [])"
  by (auto simp: tryUrl_def Let_def split: sum.splits if_splits)

lemma fetchGoogleTrends_cases:
  "fetchGoogleTrends L get geo maxn =
     (case tryUrl L maxn (primaryUrl geo) (get (primaryUrl geo)) of
        Inr topics \<Rightarrow> (topics, None, [primaryUrl geo])
      | Inl e1 \<Rightarrow>
          (case tryUrl L maxn (secondaryUrl geo) (get (secondaryUrl geo)) of
             Inr topics \<Rightarrow> (topics, None, [primaryUrl geo, secondaryUrl geo])
           | Inl e2 \<Rightarrow> ([], Some e2, [primaryUrl geo, secondaryUrl geo])))"
  by (simp add: fetchGoogleTrends_def split: sum.splits)

lemma fetchGoogleTrends_topics:
  assumes "t \<in> set (fst (fetchGoogleTrends L get geo maxn))"
  shows "\<exists>url resp items. url \<in> {primaryUrl geo, secondaryUrl geo} \<and> get url = Inr resp
           \<and> xmlDecode L (Body resp) = Inr items
           \<and> fst (fetchGoogleTrends L get geo maxn) = collectItems L maxn 0 items []"
proof (cases "tryUrl L maxn (primaryUrl geo) (get (primaryUrl geo))")
  case (Inr topics)
  then have "fst (fetchGoogleTrends L get geo maxn) = topics"
    by (simp add: fetchGoogleTrends_cases)
  with tryUrl_Inr[OF Inr] show ?thesis by auto
next
  case e1: (Inl e1)
  show ?thesis
  proof (cases "tryUrl L maxn (secondaryUrl geo) (get (secondaryUrl geo))")
    case (Inr topics)
    with e1 have "fst (fetchGoogleTrends L get geo maxn) = topics"
      by (simp add: fetchGoogleTrends_cases)
    with tryUrl_Inr[OF Inr] show ?thesis by auto
  next
    case (Inl e2)
    with e1 have "fst (fetchGoogleTrends L get geo maxn) = []"
      by (simp add: fetchGoogleTrends_cases)
    with assms show ?thesis by simp
  qed
qed

lemma ranks_gap:
  assumes idx: "\<forall>t \<in> set out. \<exists>j. P j \<and> Rank t = int j + 1"
    and gap: "\<not> P j" "t \<in> set out" "int j + 1 < Rank t"
  shows "map Rank out \<noteq> [1..int (length out)]"
proof
  assume "map Rank out = [1..int (length out)]"
  then have s: "Rank ` set out = {1..int (length out)}"
    by (metis set_map set_upto)
  with gap(2) have "Rank t \<le> int (length out)" by auto
  with gap(3) have "int j + 1 \<in> {1..int (length out)}" by simp
  with s obtain t' where "t' \<in> set out" "Rank t' = int j + 1" by (metis imageE)
  with idx obtain j' where "P j'" "int j' + 1 = int j + 1" by metis
  with gap(1) show False by simp
qed

section \<open>The claims about fetchGoogleTrends\<close>

text \<open>
  C6. \<open>fetchGoogleTrends\<close> requests the primary URL and, only when that attempt fails,
  the secondary URL. An attempt succeeds exactly when the request succeeds, the content
  type contains \<open>xml\<close>, the body decodes and an item survives the filter. The result
  is the topics of the first success with a nil error; a non-nil error comes with the
  empty list, exactly when both attempts fail, and it is the error of the attempt on
  the secondary URL, the later of the two failures.
\<close>

theorem fetchGoogleTrends_fallback:
  "fetchGoogleTrends L get geo maxn =
     (case tryUrl L maxn (primaryUrl geo) (get (primaryUrl geo)) of
        Inr topics \<Rightarrow> (topics, None, [primaryUrl geo])
      | Inl e1 \<Rightarrow>
          (case tryUrl L maxn (secondaryUrl geo) (get (secondaryUrl geo)) of
             Inr topics \<Rightarrow> (topics, None, [primaryUrl geo, secondaryUrl geo])
           | Inl e2 \<Rightarrow> ([], Some e2, [primaryUrl geo, secondaryUrl geo])))
   \<and> ((\<exists>topics. tryUrl L maxn url r = Inr topics) \<longleftrightarrow> succeeds L r)
   \<and> ((fst (snd (fetchGoogleTrends L get geo maxn)) \<noteq> None
         \<and> fst (fetchGoogleTrends L get geo maxn) = [])
        \<longleftrightarrow> (\<not> succeeds L (get (primaryUrl geo)) \<and> \<not> succeeds L (get (secondaryUrl geo))))
   \<and> ((fst (snd (fetchGoogleTrends L get geo maxn)) \<noteq> None)
        \<longleftrightarrow> (\<not> succeeds L (get (primaryUrl geo)) \<and> \<not> succeeds L (get (secondaryUrl geo))))
   \<and> ((fst (snd (fetchGoogleTrends L get geo maxn)) = None)
        \<longleftrightarrow> (fst (fetchGoogleTrends L get geo maxn) \<noteq> []))"
proof -
  note c = fetchGoogleTrends_cases[of L get geo maxn]
  have s: "\<And>url r. (\<exists>topics. tryUrl L maxn url r = Inr topics) \<longleftrightarrow> succeeds L r"
    by (rule tryUrl_succeeds)
  have ne: "\<And>url r topics. tryUrl L maxn url r = Inr topics \<Longrightarrow> topics \<noteq> []"
    by (simp add: tryUrl_Inr)
  have 3: "(fst (snd (fetchGoogleTrends L get geo maxn)) \<noteq> None)
        \<longleftrightarrow> (\<not> succeeds L (get (primaryUrl geo)) \<and> \<not> succeeds L (get (secondaryUrl geo)))"
    unfolding s[of "primaryUrl geo" "get (primaryUrl geo)", symmetric]
      s[of "secondaryUrl geo" "get (secondaryUrl geo)", symmetric] c
    by (auto split: sum.splits)
  have 4: "(fst (snd (fetchGoogleTrends L get geo maxn)) = None)
        \<longleftrightarrow> (fst (fetchGoogleTrends L get geo maxn) \<noteq> [])"
    unfolding c by (auto split: sum.splits dest: ne)
  from 3 4 have 2: "(fst (snd (fetchGoogleTrends L get geo maxn)) \<noteq> None
         \<and> fst (fetchGoogleTrends L get geo maxn) = [])
        \<longleftrightarrow> (\<not> succeeds L (get (primaryUrl geo)) \<and> \<not> succeeds L (get (secondaryUrl geo)))"
    by auto
  show ?thesis by (intro conjI) (fact c, fact s, fact 2, fact 3, fact 4)
qed

theorem fetchGoogleTrends_fallback_witness:
  "tryUrl example_lib 3 (primaryUrl ''JP'') (example_net (primaryUrl ''JP''))
     = Inl (GoogleNonXML ''text/html'' ''<html>'')
   \<and> fetchGoogleTrends example_lib example_net ''JP'' 3
     = ([\<lparr>Source = ''google'', Title = ''one'', Note = [], Rank = 1\<rparr>,
         \<lparr>Source = ''google'', Title = ''three'', Note = [], Rank = 3\<rparr>,
         \<lparr>Source = ''google'', Title = ''four'', Note = [], Rank = 4\<rparr>],
        None, [primaryUrl ''JP'', secondaryUrl ''JP''])"
proof -
  have a1: "tryUrl example_lib 3 (primaryUrl ''JP'') (example_net (primaryUrl ''JP''))
     = Inl (GoogleNonXML ''text/html'' ''<html>'')"
    by code_simp
  have a2: "tryUrl example_lib 3 (secondaryUrl ''JP'') (example_net (secondaryUrl ''JP''))
     = Inr [\<lparr>Source = ''google'', Title = ''one'', Note = [], Rank = 1\<rparr>,
         \<lparr>Source = ''google'', Title = ''three'', Note = [], Rank = 3\<rparr>,
         \<lparr>Source = ''google'', Title = ''four'', Note = [], Rank = 4\<rparr>]"
    by code_simp
  from fetchGoogleTrends_fallback[of example_lib example_net "''JP''" 3, THEN conjunct1] a1 a2
  show ?thesis by simp
qed

text \<open>
  C10. The rank of a topic that \<open>fetchGoogleTrends\<close> returns is 1 plus the index of its
  item among all the items of the feed, the items with an empty trimmed title included.
  The cap \<open>max\<close> counts the surviving items only. So when an item with an empty trimmed
  title comes before the item of a returned topic, the ranks returned are not
  \<open>1, \<dots>, n\<close>.
\<close>

theorem fetchGoogleTrends_ranks:
  "collectItems L maxn 0 items [] =
     (if maxn > 0 then take (nat maxn) (survivors L 0 items) else survivors L 0 items)
   \<and> (\<forall>t \<in> set (collectItems L maxn 0 items []).
        \<exists>j<length items. TrimSpace L (ItemTitle (items ! j)) \<noteq> []
           \<and> t = itemTopic L j (items ! j) \<and> Rank t = int j + 1)
   \<and> (\<forall>j t. j < length items \<and> TrimSpace L (ItemTitle (items ! j)) = []
           \<and> t \<in> set (collectItems L maxn 0 items []) \<and> int j + 1 < Rank t
        \<longrightarrow> map Rank (collectItems L maxn 0 items [])
              \<noteq> [1..int (length (collectItems L maxn 0 items []))])
   \<and> (\<forall>t \<in> set (fst (fetchGoogleTrends L get geo maxn)).
        \<exists>url resp its j. url \<in> {primaryUrl geo, secondaryUrl geo} \<and> get url = Inr resp
           \<and> xmlDecode L (Body resp) = Inr its \<and> j < length its
           \<and> t = itemTopic L j (its ! j) \<and> Rank t = int j + 1
           \<and> fst (fetchGoogleTrends L get geo maxn) = collectItems L maxn 0 its [])"
proof -
  have 1: "collectItems L maxn 0 items [] =
     (if maxn > 0 then take (nat maxn) (survivors L 0 items) else survivors L 0 items)"
    by (rule collectItems_start)
  have 2: "\<And>its. \<forall>t \<in> set (collectItems L maxn 0 its []).
        \<exists>j<length its. TrimSpace L (ItemTitle (its ! j)) \<noteq> []
           \<and> t = itemTopic L j (its ! j) \<and> Rank t = int j + 1"
  proof
    fix its t assume "t \<in> set (collectItems L maxn 0 its [])"
    from in_collectItems[OF this] show "\<exists>j<length its. TrimSpace L (ItemTitle (its ! j)) \<noteq> []
           \<and> t = itemTopic L j (its ! j) \<and> Rank t = int j + 1"
      by (auto simp: itemTopic_def)
  qed
  have 3: "\<forall>j t. j < length items \<and> TrimSpace L (ItemTitle (items ! j)) = []
           \<and> t \<in> set (collectItems L maxn 0 items []) \<and> int j + 1 < Rank t
        \<longrightarrow> map Rank (collectItems L maxn 0 items [])
              \<noteq> [1..int (length (collectItems L maxn 0 items []))]"
  proof (intro allI impI)
    fix j t
    assume h: "j < length items \<and> TrimSpace L (ItemTitle (items ! j)) = []
           \<and> t \<in> set (collectItems L maxn 0 items []) \<and> int j + 1 < Rank t"
    have "\<forall>t \<in> set (collectItems L maxn 0 items []).
            \<exists>j. (j < length items \<and> TrimSpace L (ItemTitle (items ! j)) \<noteq> []) \<and> Rank t = int j + 1"
      using 2[of items] by blast
    then show "map Rank (collectItems L maxn 0 items [])
              \<noteq> [1..int (length (collectItems L maxn 0 items []))]"
      using h
      by (intro ranks_gap[where P = "\<lambda>j. j < length items \<and> TrimSpace L (ItemTitle (items ! j)) \<noteq> []"
                and j = j and t = t]) auto
  qed
  have 4: "\<forall>t \<in> set (fst (fetchGoogleTrends L get geo maxn)).
        \<exists>url resp its j. url \<in> {primaryUrl geo, secondaryUrl geo} \<and> get url = Inr resp
           \<and> xmlDecode L (Body resp) = Inr its \<and> j < length its
           \<and> t = itemTopic L j (its ! j) \<and> Rank t = int j + 1
           \<and> fst (fetchGoogleTrends L get geo maxn) = collectItems L maxn 0 its []"
  proof
    fix t assume t: "t \<in> set (fst (fetchGoogleTrends L get geo maxn))"
    from fetchGoogleTrends_topics[OF t] obtain url resp its
      where u: "url \<in> {primaryUrl geo, secondaryUrl geo}" "get url = Inr resp"
        "xmlDecode L (Body resp) = Inr its"
        "fst (fetchGoogleTrends L get geo maxn) = collectItems L maxn 0 its []"
      by blast
    with t 2[of its] obtain j where "j < length its" "t = itemTopic L j (its ! j)"
      "Rank t = int j + 1" by auto
    with u show "\<exists>url resp its j. url \<in> {primaryUrl geo, secondaryUrl geo} \<and> get url = Inr resp
           \<and> xmlDecode L (Body resp) = Inr its \<and> j < length its
           \<and> t = itemTopic L j (its ! j) \<and> Rank t = int j + 1
           \<and> fst (fetchGoogleTrends L get geo maxn) = collectItems L maxn 0 its []"
      by blast
  qed
  from 1 2[of items] 3 4 show ?thesis by blast
qed

theorem fetchGoogleTrends_ranks_witness:
  "TrimSpace example_lib (ItemTitle (example_feed ! 1)) = []
   \<and> map Rank (collectItems example_lib 3 0 example_feed []) = [1, 3, 4]
   \<and> map Rank (collectItems example_lib 3 0 example_feed [])
       \<noteq> [1..int (length (collectItems example_lib 3 0 example_feed []))]"
proof -
  let ?t = "\<lparr>Source = ''google'', Title = ''three'', Note = [], Rank = 3\<rparr>"
  have b: "TrimSpace example_lib (ItemTitle (example_feed ! 1)) = []" by code_simp
  have r: "map Rank (collectItems example_lib 3 0 example_feed []) = [1, 3, 4]" by code_simp
  have t: "?t \<in> set (collectItems example_lib 3 0 example_feed [])" by code_simp
  have l: "(1::nat) < length example_feed" by code_simp
  from fetchGoogleTrends_ranks[of example_lib 3 example_feed,
      THEN conjunct2, THEN conjunct2, THEN conjunct1, rule_format, of 1 ?t] b t l
  have "map Rank (collectItems example_lib 3 0 example_feed [])
       \<noteq> [1..int (length (collectItems example_lib 3 0 example_feed []))]"
    by simp
  with b r show ?thesis by simp
qed

section \<open>Properties of fetchYahooRealtime\<close>

subsection \<open>The two passes over the anchors\<close>

lemma eachAnchor_spec: "eachAnchor L i as topics = topics @ keptAnchors L i as"
  by (induction as arbitrary: i topics) (auto simp: kept_def anchorTopic_def Let_def)

lemma in_keptAnchors:
  "t \<in> set (keptAnchors L i as) \<longleftrightarrow>
   (\<exists>j<length as. kept L (as ! j) \<and> t = anchorTopic L (i + j) (as ! j))"
proof (induction as arbitrary: i)
  case Nil
  show ?case by simp
next
  case (Cons a as)
  show ?case
    by (simp add: Cons.IH ex_less_Suc_shift)
qed

lemma dedupe_Cons:
  "dedupe L maxn (t # ts) seen out =
     (if keyOf L t = [] \<or> seen (keyOf L t) then dedupe L maxn ts seen out
      else if maxn > 0 \<and> int (length (out @ [t])) \<ge> maxn then out @ [t]
      else dedupe L maxn ts (seen(keyOf L t := True)) (out @ [t]))"
  by (simp add: keyOf_def Let_def)

lemma dedupe_spec:
  "(maxn > 0 \<longrightarrow> int (length out) < maxn) \<Longrightarrow>
   dedupe L maxn ts seen out =
     out @ (if maxn > 0 then take (nat maxn - length out) (uniq L seen ts) else uniq L seen ts)"
proof (induction ts arbitrary: seen out)
  case Nil
  show ?case by simp
next
  case (Cons t ts)
  show ?case
  proof (cases "keyOf L t = [] \<or> seen (keyOf L t)")
    case True
    have "dedupe L maxn (t # ts) seen out = dedupe L maxn ts seen out"
      by (simp only: dedupe_Cons if_P[OF True])
    also have "\<dots> = out @ (if maxn > 0 then take (nat maxn - length out) (uniq L seen ts)
                          else uniq L seen ts)"
      by (rule Cons.IH) (rule Cons.prems)
    also from True have "uniq L seen ts = uniq L seen (t # ts)" by simp
    finally show ?thesis .
  next
    case False
    then have u: "uniq L seen (t # ts) = t # uniq L (seen(keyOf L t := True)) ts" by simp
    show ?thesis
    proof (cases "maxn > 0 \<and> int (length (out @ [t])) \<ge> maxn")
      case True
      have "dedupe L maxn (t # ts) seen out = out @ [t]"
        by (simp only: dedupe_Cons if_not_P[OF False] if_P[OF True])
      moreover from True Cons.prems have "nat maxn - length out = 1" by auto
      ultimately show ?thesis using True by (simp only: u) simp
    next
      case go: False
      then have small: "maxn > 0 \<longrightarrow> int (length (out @ [t])) < maxn" by auto
      have "dedupe L maxn (t # ts) seen out =
          dedupe L maxn ts (seen(keyOf L t := True)) (out @ [t])"
        by (simp only: dedupe_Cons if_not_P[OF False] if_not_P[OF go])
      also have "\<dots> = (out @ [t]) @
          (if maxn > 0 then take (nat maxn - length (out @ [t])) (uniq L (seen(keyOf L t := True)) ts)
           else uniq L (seen(keyOf L t := True)) ts)"
        by (rule Cons.IH) (rule small)
      also have "\<dots> = out @
          (if maxn > 0 then take (nat maxn - length out) (t # uniq L (seen(keyOf L t := True)) ts)
           else t # uniq L (seen(keyOf L t := True)) ts)"
      proof (cases "maxn > 0")
        case True
        with Cons.prems have "nat maxn - length out = Suc (nat maxn - length (out @ [t]))"
          by auto
        with True show ?thesis by simp
      next
        case False
        then show ?thesis by simp
      qed
      finally show ?thesis by (simp only: u)
    qed
  qed
qed

lemma dedupe_start:
  "dedupe L maxn ts (\<lambda>k. False) [] =
     (if maxn > 0 then take (nat maxn) (uniq L (\<lambda>k. False) ts) else uniq L (\<lambda>k. False) ts)"
  using dedupe_spec[of maxn "[]" L ts "\<lambda>k. False"] by simp

lemma all_less_Suc_shift: "(\<forall>j<Suc n. P j) \<longleftrightarrow> P 0 \<and> (\<forall>j<n. P (Suc j))"
  by (auto simp: less_Suc_eq_0_disj)

lemma uniq_nths:
  "uniq L seen ts =
   nths ts {i. i < length ts \<and> keyOf L (ts ! i) \<noteq> [] \<and> \<not> seen (keyOf L (ts ! i))
              \<and> (\<forall>j<i. keyOf L (ts ! j) \<noteq> keyOf L (ts ! i))}"
proof -
  define A where "A = (\<lambda>seen ts. {i. i < length ts \<and> keyOf L (ts ! i) \<noteq> []
       \<and> \<not> seen (keyOf L (ts ! i)) \<and> (\<forall>j<i. keyOf L (ts ! j) \<noteq> keyOf L (ts ! i))})"
  have "uniq L seen ts = nths ts (A seen ts)"
  proof (induction ts arbitrary: seen)
    case Nil
    show ?case by simp
  next
    case (Cons t ts)
    show ?case
    proof (cases "keyOf L t = [] \<or> seen (keyOf L t)")
      case True
      then have z: "0 \<notin> A seen (t # ts)" by (auto simp: A_def)
      from True have sh: "{j. Suc j \<in> A seen (t # ts)} = A seen ts"
        by (auto simp: A_def all_less_Suc_shift)
      from True have "uniq L seen (t # ts) = uniq L seen ts" by simp
      also have "\<dots> = nths ts (A seen ts)" by (rule Cons.IH)
      also have "\<dots> = nths (t # ts) (A seen (t # ts))"
        by (simp only: nths_Cons if_not_P[OF z] sh append_Nil)
      finally show ?thesis .
    next
      case False
      then have z: "0 \<in> A seen (t # ts)" by (auto simp: A_def)
      from False have sh: "{j. Suc j \<in> A seen (t # ts)} = A (seen(keyOf L t := True)) ts"
        by (auto simp: A_def all_less_Suc_shift)
      from False have "uniq L seen (t # ts) = t # uniq L (seen(keyOf L t := True)) ts" by simp
      also have "uniq L (seen(keyOf L t := True)) ts = nths ts (A (seen(keyOf L t := True)) ts)"
        by (rule Cons.IH)
      also have "t # nths ts (A (seen(keyOf L t := True)) ts) = nths (t # ts) (A seen (t # ts))"
        by (simp only: nths_Cons if_P[OF z] sh append_Cons append_Nil)
      finally show ?thesis .
    qed
  qed
  then show ?thesis by (simp only: A_def)
qed

lemma in_uniq_keys:
  "k \<in> keyOf L ` set (uniq L seen ts) \<longleftrightarrow> k \<in> keyOf L ` set ts \<and> k \<noteq> [] \<and> \<not> seen k"
proof (induction ts arbitrary: seen)
  case Nil
  show ?case by simp
next
  case (Cons t ts)
  show ?case by (auto simp: Cons.IH)
qed

lemma set_uniq_keys:
  "set (map (keyOf L) (uniq L seen ts)) = {k \<in> keyOf L ` set ts. k \<noteq> [] \<and> \<not> seen k}"
proof (rule set_eqI)
  fix k
  show "k \<in> set (map (keyOf L) (uniq L seen ts))
        \<longleftrightarrow> k \<in> {k \<in> keyOf L ` set ts. k \<noteq> [] \<and> \<not> seen k}"
    using in_uniq_keys[of k L seen ts] by simp
qed

lemma distinct_uniq_keys: "distinct (map (keyOf L) (uniq L seen ts))"
proof (induction ts arbitrary: seen)
  case Nil
  show ?case by simp
next
  case (Cons t ts)
  show ?case by (simp add: Cons.IH in_uniq_keys)
qed

lemma length_uniq: "length (uniq L (\<lambda>k. False) ts) = length (keys L ts)"
proof -
  have "set (map (keyOf L) (uniq L (\<lambda>k. False) ts)) = set (keys L ts)"
    by (simp only: set_uniq_keys set_keys) simp
  then have "card (set (map (keyOf L) (uniq L (\<lambda>k. False) ts))) = card (set (keys L ts))"
    by simp
  then have "length (map (keyOf L) (uniq L (\<lambda>k. False) ts)) = length (keys L ts)"
    by (simp only: distinct_card[OF distinct_uniq_keys] distinct_card[OF distinct_keys])
  then show ?thesis by simp
qed

lemma set_uniq: "set (uniq L seen ts) \<subseteq> set ts"
  by (induction ts arbitrary: seen) auto

lemma set_dedupe: "set (dedupe L maxn ts (\<lambda>k. False) []) \<subseteq> set ts"
  using set_uniq[of L "\<lambda>k. False" ts]
  by (auto simp: dedupe_start dest: in_set_takeD split: if_splits)

lemma fetchYahooRealtime_page:
  "get yahooUrl = Inr resp \<Longrightarrow> StatusCode resp = 200 \<Longrightarrow> findAnchors L (Body resp) = Inr anchors \<Longrightarrow>
   fst (fetchYahooRealtime L get maxn) = dedupe L maxn (eachAnchor L 0 anchors []) (\<lambda>k. False) []"
  by (simp add: fetchYahooRealtime_def Let_def)

lemma fetchYahooRealtime_topics:
  assumes "t \<in> set (fst (fetchYahooRealtime L get maxn))"
  shows "\<exists>resp anchors. get yahooUrl = Inr resp \<and> StatusCode resp = 200
           \<and> findAnchors L (Body resp) = Inr anchors
           \<and> fst (fetchYahooRealtime L get maxn) =
               dedupe L maxn (eachAnchor L 0 anchors []) (\<lambda>k. False) []"
  using assms
  by (auto simp: fetchYahooRealtime_def Let_def split: sum.splits if_splits)

subsection \<open>The ranks that the adapters produce\<close>

text \<open>Both adapters return topics of rank 1 or more.\<close>

lemma fetchGoogleTrends_rank_pos:
  "t \<in> set (fst (fetchGoogleTrends L get geo maxn)) \<Longrightarrow> 1 \<le> Rank t"
proof -
  assume t: "t \<in> set (fst (fetchGoogleTrends L get geo maxn))"
  from fetchGoogleTrends_topics[OF t] obtain items
    where "fst (fetchGoogleTrends L get geo maxn) = collectItems L maxn 0 items []" by blast
  with t have "t \<in> set (collectItems L maxn 0 items [])" by simp
  from in_collectItems[OF this] show ?thesis by (auto simp: itemTopic_def)
qed

lemma fetchYahooRealtime_rank_pos:
  "t \<in> set (fst (fetchYahooRealtime L get maxn)) \<Longrightarrow> 1 \<le> Rank t"
proof -
  assume t: "t \<in> set (fst (fetchYahooRealtime L get maxn))"
  from fetchYahooRealtime_topics[OF t] obtain as
    where "fst (fetchYahooRealtime L get maxn) =
             dedupe L maxn (eachAnchor L 0 as []) (\<lambda>k. False) []" by blast
  with t have "t \<in> set (keptAnchors L 0 as)"
    using set_dedupe[of L maxn "eachAnchor L 0 as []"] by (auto simp: eachAnchor_spec)
  then show ?thesis by (auto simp: in_keptAnchors anchorTopic_def)
qed

section \<open>The claims about fetchYahooRealtime\<close>

text \<open>
  C7. The first pass keeps the anchors that have a non-empty trimmed text and a link
  target containing \<open>/realtime/search\<close>, and gives the topic of a kept anchor the rank
  1 plus the index of the anchor among all the anchors of the selection. A discarded
  anchor uses up its rank number: when a discarded anchor comes before the anchor of
  a kept topic, the ranks of the kept topics are not \<open>1, \<dots>, n\<close>. Every topic that
  \<open>fetchYahooRealtime\<close> returns carries the rank of the first pass.
\<close>

theorem fetchYahooRealtime_ranks:
  "eachAnchor L 0 anchors [] = keptAnchors L 0 anchors
   \<and> (\<forall>t. t \<in> set (eachAnchor L 0 anchors []) \<longleftrightarrow>
          (\<exists>j<length anchors. kept L (anchors ! j) \<and> t = anchorTopic L j (anchors ! j)))
   \<and> Rank (anchorTopic L j a) = int j + 1
   \<and> Title (anchorTopic L j a) = TrimSpace L (Text a)
   \<and> (\<forall>j t. j < length anchors \<and> \<not> kept L (anchors ! j)
           \<and> t \<in> set (eachAnchor L 0 anchors []) \<and> int j + 1 < Rank t
        \<longrightarrow> map Rank (eachAnchor L 0 anchors [])
              \<noteq> [1..int (length (eachAnchor L 0 anchors []))])
   \<and> (\<forall>t \<in> set (fst (fetchYahooRealtime L get maxn)).
        \<exists>resp as j. get yahooUrl = Inr resp \<and> findAnchors L (Body resp) = Inr as
           \<and> j < length as \<and> kept L (as ! j) \<and> t = anchorTopic L j (as ! j)
           \<and> Rank t = int j + 1)"
proof -
  have 1: "\<And>as. eachAnchor L 0 as [] = keptAnchors L 0 as"
    by (simp add: eachAnchor_spec)
  have 2: "\<And>as. \<forall>t. t \<in> set (eachAnchor L 0 as []) \<longleftrightarrow>
          (\<exists>j<length as. kept L (as ! j) \<and> t = anchorTopic L j (as ! j))"
    by (simp add: 1 in_keptAnchors)
  have 3: "Rank (anchorTopic L j a) = int j + 1" by (simp add: anchorTopic_def)
  have 4: "Title (anchorTopic L j a) = TrimSpace L (Text a)" by (simp add: anchorTopic_def)
  have 5: "\<forall>j t. j < length anchors \<and> \<not> kept L (anchors ! j)
           \<and> t \<in> set (eachAnchor L 0 anchors []) \<and> int j + 1 < Rank t
        \<longrightarrow> map Rank (eachAnchor L 0 anchors [])
              \<noteq> [1..int (length (eachAnchor L 0 anchors []))]"
  proof (intro allI impI)
    fix j t
    assume h: "j < length anchors \<and> \<not> kept L (anchors ! j)
           \<and> t \<in> set (eachAnchor L 0 anchors []) \<and> int j + 1 < Rank t"
    have "\<forall>t \<in> set (eachAnchor L 0 anchors []).
            \<exists>j. (j < length anchors \<and> kept L (anchors ! j)) \<and> Rank t = int j + 1"
      using 2[of anchors] by (auto simp: anchorTopic_def)
    then show "map Rank (eachAnchor L 0 anchors [])
              \<noteq> [1..int (length (eachAnchor L 0 anchors []))]"
      using h
      by (intro ranks_gap[where P = "\<lambda>j. j < length anchors \<and> kept L (anchors ! j)"
                and j = j and t = t]) auto
  qed
  have 6: "\<forall>t \<in> set (fst (fetchYahooRealtime L get maxn)).
        \<exists>resp as j. get yahooUrl = Inr resp \<and> findAnchors L (Body resp) = Inr as
           \<and> j < length as \<and> kept L (as ! j) \<and> t = anchorTopic L j (as ! j)
           \<and> Rank t = int j + 1"
  proof
    fix t assume t: "t \<in> set (fst (fetchYahooRealtime L get maxn))"
    from fetchYahooRealtime_topics[OF t] obtain resp as
      where u: "get yahooUrl = Inr resp" "findAnchors L (Body resp) = Inr as"
        "fst (fetchYahooRealtime L get maxn) = dedupe L maxn (eachAnchor L 0 as []) (\<lambda>k. False) []"
      by blast
    with t have "t \<in> set (eachAnchor L 0 as [])"
      using set_dedupe[of L maxn "eachAnchor L 0 as []"] by auto
    with 2[of as] obtain j where "j < length as" "kept L (as ! j)" "t = anchorTopic L j (as ! j)"
      by blast
    with u show "\<exists>resp as j. get yahooUrl = Inr resp \<and> findAnchors L (Body resp) = Inr as
           \<and> j < length as \<and> kept L (as ! j) \<and> t = anchorTopic L j (as ! j)
           \<and> Rank t = int j + 1"
      by (auto simp: anchorTopic_def)
  qed
  show ?thesis by (intro conjI) (fact 1, fact 2, fact 3, fact 4, fact 5, fact 6)
qed

theorem fetchYahooRealtime_ranks_witness:
  "\<not> kept example_page_lib (example_anchors ! 0)
   \<and> map Rank (eachAnchor example_page_lib 0 example_anchors [])
       = [2, 3, 4, 5, 7, 8, 9, 10, 11, 12]
   \<and> map Rank (eachAnchor example_page_lib 0 example_anchors [])
       \<noteq> [1..int (length (eachAnchor example_page_lib 0 example_anchors []))]"
proof -
  let ?t = "\<lparr>Source = ''yahoo'', Title = ''alpha'', Note = [], Rank = 2\<rparr>"
  have k: "\<not> kept example_page_lib (example_anchors ! 0)" by code_simp
  have r: "map Rank (eachAnchor example_page_lib 0 example_anchors [])
       = [2, 3, 4, 5, 7, 8, 9, 10, 11, 12]" by code_simp
  have t: "?t \<in> set (eachAnchor example_page_lib 0 example_anchors [])" by code_simp
  have l: "(0::nat) < length example_anchors" by code_simp
  from fetchYahooRealtime_ranks[of example_page_lib example_anchors,
      THEN conjunct2, THEN conjunct2, THEN conjunct2, THEN conjunct2, THEN conjunct1,
      rule_format, of 0 ?t] k t l
  have "map Rank (eachAnchor example_page_lib 0 example_anchors [])
       \<noteq> [1..int (length (eachAnchor example_page_lib 0 example_anchors []))]"
    by simp
  with k r show ?thesis by simp
qed

text \<open>
  C8. The second pass returns the topics at the first occurrences of the non-empty
  keys, in the order and with the ranks of the first pass, cut to the first \<open>max\<close> of
  them when \<open>max > 0\<close>. No key occurs twice in its result, and its length is the
  number of distinct non-empty keys, or \<open>max\<close> if that is smaller and positive: ten
  topics with eight distinct keys and \<open>max = 5\<close> give \<open>min 5 8\<close> entries.
\<close>

theorem fetchYahooRealtime_dedupe:
  "dedupe L maxn topics (\<lambda>k. False) [] =
     (if maxn > 0 then take (nat maxn) (nths topics (firstOccurrences L topics))
      else nths topics (firstOccurrences L topics))
   \<and> distinct (map (keyOf L) (dedupe L maxn topics (\<lambda>k. False) []))
   \<and> length (dedupe L maxn topics (\<lambda>k. False) []) =
       (if maxn > 0 then min (nat maxn) (length (keys L topics)) else length (keys L topics))
   \<and> (length topics = 10 \<and> length (keys L topics) = 8
        \<longrightarrow> length (dedupe L 5 topics (\<lambda>k. False) []) = min 5 8)
   \<and> (get yahooUrl = Inr resp \<and> StatusCode resp = 200 \<and> findAnchors L (Body resp) = Inr anchors
        \<longrightarrow> fst (fetchYahooRealtime L get maxn) =
              dedupe L maxn (eachAnchor L 0 anchors []) (\<lambda>k. False) [])"
proof -
  have u: "uniq L (\<lambda>k. False) topics = nths topics (firstOccurrences L topics)"
    by (simp add: uniq_nths firstOccurrences_def)
  have 1: "dedupe L maxn topics (\<lambda>k. False) [] =
     (if maxn > 0 then take (nat maxn) (nths topics (firstOccurrences L topics))
      else nths topics (firstOccurrences L topics))"
    by (simp only: dedupe_start u)
  have "distinct (map (keyOf L) (uniq L (\<lambda>k. False) topics))"
    by (rule distinct_uniq_keys)
  then have 2: "distinct (map (keyOf L) (dedupe L maxn topics (\<lambda>k. False) []))"
    by (simp add: dedupe_start take_map[symmetric])
  have 3: "\<And>n. length (dedupe L n topics (\<lambda>k. False) []) =
       (if n > 0 then min (nat n) (length (keys L topics)) else length (keys L topics))"
    by (simp add: dedupe_start length_uniq min.commute)
  have 4: "length topics = 10 \<and> length (keys L topics) = 8
        \<longrightarrow> length (dedupe L 5 topics (\<lambda>k. False) []) = min 5 8"
    by (simp add: 3)
  have 5: "get yahooUrl = Inr resp \<and> StatusCode resp = 200 \<and> findAnchors L (Body resp) = Inr anchors
        \<longrightarrow> fst (fetchYahooRealtime L get maxn) =
              dedupe L maxn (eachAnchor L 0 anchors []) (\<lambda>k. False) []"
    by (simp add: fetchYahooRealtime_page)
  show ?thesis by (intro conjI) (fact 1, fact 2, fact 3, fact 4, fact 5)
qed

theorem fetchYahooRealtime_dedupe_witness:
  "length (eachAnchor example_page_lib 0 example_anchors []) = 10
   \<and> length (keys example_page_lib (eachAnchor example_page_lib 0 example_anchors [])) = 8
   \<and> length (dedupe example_page_lib 5 (eachAnchor example_page_lib 0 example_anchors [])
        (\<lambda>k. False) []) = min 5 8
   \<and> dedupe example_page_lib 5 (eachAnchor example_page_lib 0 example_anchors []) (\<lambda>k. False) []
     = [\<lparr>Source = ''yahoo'', Title = ''alpha'', Note = [], Rank = 2\<rparr>,
        \<lparr>Source = ''yahoo'', Title = ''beta'', Note = [], Rank = 3\<rparr>,
        \<lparr>Source = ''yahoo'', Title = ''gamma'', Note = [], Rank = 5\<rparr>,
        \<lparr>Source = ''yahoo'', Title = ''delta'', Note = [], Rank = 7\<rparr>,
        \<lparr>Source = ''yahoo'', Title = ''epsilon'', Note = [], Rank = 9\<rparr>]"
proof -
  let ?ts = "eachAnchor example_page_lib 0 example_anchors []"
  have a: "length ?ts = 10" by code_simp
  have b: "length (keys example_page_lib ?ts) = 8" by code_simp
  have c: "dedupe example_page_lib 5 ?ts (\<lambda>k. False) []
     = [\<lparr>Source = ''yahoo'', Title = ''alpha'', Note = [], Rank = 2\<rparr>,
        \<lparr>Source = ''yahoo'', Title = ''beta'', Note = [], Rank = 3\<rparr>,
        \<lparr>Source = ''yahoo'', Title = ''gamma'', Note = [], Rank = 5\<rparr>,
        \<lparr>Source = ''yahoo'', Title = ''delta'', Note = [], Rank = 7\<rparr>,
        \<lparr>Source = ''yahoo'', Title = ''epsilon'', Note = [], Rank = 9\<rparr>]"
    by code_simp
  from fetchYahooRealtime_dedupe[of example_page_lib _ ?ts,
      THEN conjunct2, THEN conjunct2, THEN conjunct2, THEN conjunct1] a b
  have "length (dedupe example_page_lib 5 ?ts (\<lambda>k. False) []) = min 5 8"
    by blast
  with a b c show ?thesis by blast
qed

end
